theory Spec2Isabelle
  imports Main "HOL-Library.Sublist" "HOL-Library.Char_ord" "HOL-Library.List_Lexorder"
begin

section \<open>Numeric binary search tree (module-level helpers on \<open>TreeNode\<close>)\<close>

text \<open>
  \<^verbatim>\<open>class TreeNode\<close> has the fields \<open>val\<close>, \<open>left\<close>, \<open>right\<close>; a reference to a node
  is either \<open>None\<close> or a node object. Every node is created by one call of
  \<open>TreeNode(val)\<close> and linked into exactly one parent slot, so no node is shared and the
  in-place updates \<open>node.left = ...\<close>, \<open>node.val = ...\<close> are modelled by rebuilding the
  node. The constructor \<open>TNone\<close> is the \<open>None\<close> reference; the arguments of
  \<open>TreeNode\<close> are \<open>val\<close>, \<open>left\<close>, \<open>right\<close>, in the order of \<open>__init__\<close>.
  Keys of the numeric tree are Python integers, which are unbounded: \<open>int\<close>.
\<close>

datatype 'a TreeNode = TNone | TreeNode 'a "'a TreeNode" "'a TreeNode"

text \<open>\<^verbatim>\<open>bst_insert(node, val)\<close>: a tie takes the \<open>else\<close> branch and goes right.\<close>

fun bst_insert :: "int TreeNode \<Rightarrow> int \<Rightarrow> int TreeNode" where
  "bst_insert TNone v = TreeNode v TNone TNone"
| "bst_insert (TreeNode x l r) v =
     (if v < x then TreeNode x (bst_insert l v) r
      else TreeNode x l (bst_insert r v))"

text \<open>\<^verbatim>\<open>bst_search(node, val)\<close>.\<close>

fun bst_search :: "int TreeNode \<Rightarrow> int \<Rightarrow> bool" where
  "bst_search TNone v = False"
| "bst_search (TreeNode x l r) v =
     (if x = v then True
      else if v < x then bst_search l v
      else bst_search r v)"

text \<open>
  \<^verbatim>\<open>bst_find_max(node)\<close>: \<open>None\<close> for the empty tree, otherwise the loop
  \<^verbatim>\<open>while node.right: node = node.right\<close> and then \<open>node.val\<close>.
\<close>

fun bst_find_max :: "int TreeNode \<Rightarrow> int option" where
  "bst_find_max TNone = None"
| "bst_find_max (TreeNode x l r) =
     (case r of TNone \<Rightarrow> Some x | TreeNode y rl rr \<Rightarrow> bst_find_max r)"

text \<open>\<^verbatim>\<open>bst_height(node)\<close>.\<close>

fun bst_height :: "int TreeNode \<Rightarrow> int" where
  "bst_height TNone = 0"
| "bst_height (TreeNode x l r) = 1 + max (bst_height l) (bst_height r)"

text \<open>
  \<^verbatim>\<open>bst_delete(node, val)\<close>, with the source's order of tests: descend left, descend
  right, no child, no left child, no right child, two children. In the last case
  \<open>temp = bst_find_max(node.left)\<close> is taken from a left subtree that is a node, so it is
  a key (lemma \<open>bst_find_max_node\<close> below); the \<open>None\<close> branch of the case expression is
  therefore never taken and only makes the function total.
\<close>

fun bst_delete :: "int TreeNode \<Rightarrow> int \<Rightarrow> int TreeNode" where
  "bst_delete TNone v = TNone"
| "bst_delete (TreeNode x l r) v =
     (if v < x then TreeNode x (bst_delete l v) r
      else if v > x then TreeNode x l (bst_delete r v)
      else if l = TNone \<and> r = TNone then TNone
      else if l = TNone then r
      else if r = TNone then l
      else (case bst_find_max l of
              Some temp \<Rightarrow> TreeNode temp (bst_delete l temp) r
            | None \<Rightarrow> TreeNode x l r))"

text \<open>
  The routes \<open>/bst/insert\<close> and \<open>/bst/delete\<close> replace the global \<open>bst_root\<close> by the
  result of \<open>bst_insert\<close> or \<open>bst_delete\<close>. A sequence of requests is a list of
  operations folded over the root, which starts as \<open>None\<close>.
\<close>

datatype bst_op = Insert int | Delete int

fun bst_apply :: "int TreeNode \<Rightarrow> bst_op \<Rightarrow> int TreeNode" where
  "bst_apply t (Insert v) = bst_insert t v"
| "bst_apply t (Delete v) = bst_delete t v"

definition bst_run :: "bst_op list \<Rightarrow> int TreeNode" where
  "bst_run ops = foldl bst_apply TNone ops"

text \<open>The keys stored in a tree (node, then left subtree, then right subtree).\<close>

fun keys :: "'a TreeNode \<Rightarrow> 'a list" where
  "keys TNone = []"
| "keys (TreeNode x l r) = x # keys l @ keys r"

text \<open>
  The ordering invariant in the words of the specification: at every node the keys of
  the left subtree are strictly smaller and the keys of the right subtree are greater
  or equal.
\<close>

fun bst_inv :: "int TreeNode \<Rightarrow> bool" where
  "bst_inv TNone = True"
| "bst_inv (TreeNode x l r) =
     (bst_inv l \<and> bst_inv r \<and> list_all (\<lambda>k. k < x) (keys l) \<and> list_all (\<lambda>k. x \<le> k) (keys r))"

text \<open>The weaker ordering that also admits a key equal to the node's key on the left.\<close>

fun bst_weak :: "int TreeNode \<Rightarrow> bool" where
  "bst_weak TNone = True"
| "bst_weak (TreeNode x l r) =
     (bst_weak l \<and> bst_weak r \<and> list_all (\<lambda>k. k \<le> x) (keys l) \<and> list_all (\<lambda>k. x \<le> k) (keys r))"

text \<open>
  \<open>unique_promotion t v\<close> follows the descent of \<open>bst_delete t v\<close>: when the node
  that is deleted has two children, the key that takes its place, the maximum of its
  left subtree, occurs only once in that left subtree. \<open>unique_promotions ops t\<close>
  says this of every delete of the request sequence \<open>ops\<close>, at the tree it is applied
  to; inserts are not restricted.
\<close>

fun unique_promotion :: "int TreeNode \<Rightarrow> int \<Rightarrow> bool" where
  "unique_promotion TNone v = True"
| "unique_promotion (TreeNode x l r) v =
     (if v < x then unique_promotion l v
      else if v > x then unique_promotion r v
      else if l = TNone \<or> r = TNone then True
      else (case bst_find_max l of
              Some temp \<Rightarrow> count_list (keys l) temp = 1
            | None \<Rightarrow> True))"

fun unique_promotions :: "bst_op list \<Rightarrow> int TreeNode \<Rightarrow> bool" where
  "unique_promotions [] t = True"
| "unique_promotions (Insert v # ops) t = unique_promotions ops (bst_insert t v)"
| "unique_promotions (Delete v # ops) t =
     (unique_promotion t v \<and> unique_promotions ops (bst_delete t v))"

text \<open>Ordering with both sides strict: what a tree without repeated keys satisfies.\<close>

fun bst_strict :: "int TreeNode \<Rightarrow> bool" where
  "bst_strict TNone = True"
| "bst_strict (TreeNode x l r) =
     (bst_strict l \<and> bst_strict r \<and> list_all (\<lambda>k. k < x) (keys l) \<and> list_all (\<lambda>k. x < k) (keys r))"

section \<open>Linked stack and linked queue (classes \<open>Node\<close>, \<open>Stack\<close>, \<open>QueueLinked\<close>)\<close>

text \<open>
  \<^verbatim>\<open>class Node\<close> has the fields \<open>node\<close> (the stored value), \<open>left\<close> and \<open>right\<close>.
  Where every node has one owner (the stack's chain, the tree of class \<open>BST\<close>) a
  reference is modelled as a value: \<open>NNone\<close> is \<open>None\<close>, and the arguments of \<open>Node\<close>
  are \<open>node\<close>, \<open>left\<close>, \<open>right\<close>.
\<close>

datatype 'a Node = NNone | Node 'a "'a Node" "'a Node"

text \<open>
  \<^verbatim>\<open>class Stack\<close>: the fields \<open>head\<close> and \<open>length\<close>. The chain of the stack is linked
  through \<open>left\<close>.
\<close>

record 'a Stack =
  stack_head :: "'a Node"
  stack_length :: int

definition Stack_init :: "'a Stack" where
  "Stack_init = \<lparr>stack_head = NNone, stack_length = 0\<rparr>"

text \<open>\<^verbatim>\<open>Stack.push(self, data)\<close>.\<close>

definition push :: "'a Stack \<Rightarrow> 'a \<Rightarrow> 'a Stack" where
  "push s data =
     s\<lparr>stack_head := Node data (stack_head s) NNone, stack_length := stack_length s + 1\<rparr>"

text \<open>
  \<^verbatim>\<open>Stack.to_list(self)\<close>: the loop \<^verbatim>\<open>while cur: items.append(cur.node); cur = cur.left\<close>
  with its two variables \<open>cur\<close> and \<open>items\<close>.
\<close>

fun to_list_loop :: "'a Node \<Rightarrow> 'a list \<Rightarrow> 'a list" where
  "to_list_loop NNone items = items"
| "to_list_loop (Node d l r) items = to_list_loop l (items @ [d])"

definition to_list :: "'a Stack \<Rightarrow> 'a list" where
  "to_list s = to_list_loop (stack_head s) []"

text \<open>
  The queue keeps two references, \<open>head\<close> and \<open>tail\<close>, into one chain, and
  \<open>enqueue\<close> writes through \<open>tail\<close> what \<open>dequeue\<close> later reads through \<open>head\<close>. The
  node objects of a queue therefore live in an explicit store: an address is a natural
  number, a reference is \<open>None\<close> or an address, and \<open>Node(data)\<close> allocates the next
  unused address.
\<close>

type_synonym addr = nat

record 'a NodeObj =
  node :: 'a
  left :: "addr option"
  right :: "addr option"

record 'a QueueLinked =
  heap :: "addr \<Rightarrow> 'a NodeObj option"
  next_addr :: addr
  head :: "addr option"
  tail :: "addr option"
  qlength :: int

text \<open>
  Reading an attribute of \<open>None\<close> raises \<open>AttributeError\<close>. \<open>Dangling\<close> stands for a
  reference to an address that holds no object; Python has no such reference, so this
  error exists in the store model only.
\<close>

datatype error = AttributeError | TypeError | ValueError | RecursionError | Dangling

definition QueueLinked_init :: "'a QueueLinked" where
  "QueueLinked_init =
     \<lparr>heap = (\<lambda>a. None), next_addr = 0, head = None, tail = None, qlength = 0\<rparr>"

text \<open>
  \<^verbatim>\<open>QueueLinked.enqueue(self, data)\<close>: \<open>q1\<close> is the state after \<open>n = Node(data)\<close>;
  \<open>if not self.head\<close> tests the reference (a node object is always true);
  \<open>self.tail.right = n\<close> writes the object that \<open>tail\<close> refers to.
\<close>

definition enqueue :: "'a QueueLinked \<Rightarrow> 'a \<Rightarrow> error + 'a QueueLinked" where
  "enqueue q data =
     (let n = next_addr q;
          q1 = q\<lparr>heap := (heap q)(n \<mapsto> \<lparr>node = data, left = None, right = None\<rparr>),
                 next_addr := n + 1\<rparr>
      in case head q1 of
           None \<Rightarrow> Inr (q1\<lparr>head := Some n, tail := Some n, qlength := qlength q1 + 1\<rparr>)
         | Some h \<Rightarrow>
             (case tail q1 of
                None \<Rightarrow> Inl AttributeError
              | Some t \<Rightarrow>
                  (case heap q1 t of
                     None \<Rightarrow> Inl Dangling
                   | Some obj \<Rightarrow>
                       Inr (q1\<lparr>heap := (heap q1)(t \<mapsto> obj\<lparr>right := Some n\<rparr>),
                               tail := Some n, qlength := qlength q1 + 1\<rparr>))))"

text \<open>
  \<^verbatim>\<open>QueueLinked.dequeue(self)\<close> returns \<open>None\<close> when \<open>length\<close> is 0 and the stored value
  \<open>n.node\<close> otherwise; the result is an option, \<open>None\<close> being the sentinel.
  \<open>self.head.right\<close> reads through \<open>head\<close> and raises when \<open>head\<close> is \<open>None\<close>.
\<close>

definition dequeue :: "'a QueueLinked \<Rightarrow> error + ('a option \<times> 'a QueueLinked)" where
  "dequeue q =
     (if qlength q = 0 then Inr (None, q)
      else case head q of
             None \<Rightarrow> Inl AttributeError
           | Some a \<Rightarrow>
               (case heap q a of
                  None \<Rightarrow> Inl Dangling
                | Some obj \<Rightarrow>
                    Inr (Some (node obj), q\<lparr>head := right obj, qlength := qlength q - 1\<rparr>)))"

text \<open>
  A sequence of calls on one queue. An exception ends the run; otherwise the run
  returns what each \<open>dequeue\<close> returned, in call order, and the final queue.
\<close>

datatype 'a queue_op = Enqueue 'a | Dequeue

fun queue_run ::
  "'a queue_op list \<Rightarrow> 'a QueueLinked \<Rightarrow> error + ('a option list \<times> 'a QueueLinked)" where
  "queue_run [] q = Inr ([], q)"
| "queue_run (Enqueue x # ops) q =
     (case enqueue q x of Inl e \<Rightarrow> Inl e | Inr q' \<Rightarrow> queue_run ops q')"
| "queue_run (Dequeue # ops) q =
     (case dequeue q of
        Inl e \<Rightarrow> Inl e
      | Inr (r, q') \<Rightarrow>
          (case queue_run ops q' of
             Inl e \<Rightarrow> Inl e
           | Inr (rs, q'') \<Rightarrow> Inr (r # rs, q'')))"

definition final_queue :: "'a queue_op list \<Rightarrow> 'a QueueLinked option" where
  "final_queue ops =
     (case queue_run ops QueueLinked_init of Inl e \<Rightarrow> None | Inr (rs, q) \<Rightarrow> Some q)"

text \<open>
  The specification's queue, in its words: values leave in the order in which they
  entered, and a dequeue of the empty queue gives the sentinel. \<open>fifo ops xs\<close> lists
  what the dequeues of \<open>ops\<close> return when the queue holds \<open>xs\<close>, oldest first.
\<close>

fun fifo :: "'a queue_op list \<Rightarrow> 'a list \<Rightarrow> 'a option list" where
  "fifo [] xs = []"
| "fifo (Enqueue x # ops) xs = fifo ops (xs @ [x])"
| "fifo (Dequeue # ops) [] = None # fifo ops []"
| "fifo (Dequeue # ops) (y # ys) = Some y # fifo ops ys"

text \<open>
  \<open>cells h p cs\<close>: following \<open>right\<close> from the reference \<open>p\<close> in the store \<open>h\<close> visits
  exactly the addresses of \<open>cs\<close>, which hold the values of \<open>cs\<close>, and ends in \<open>None\<close>.
\<close>

fun cells :: "(addr \<Rightarrow> 'a NodeObj option) \<Rightarrow> addr option \<Rightarrow> (addr \<times> 'a) list \<Rightarrow> bool" where
  "cells h p [] = (p = None)"
| "cells h p ((a, v) # cs) =
     (p = Some a \<and>
      (case h a of None \<Rightarrow> False | Some obj \<Rightarrow> node obj = v \<and> cells h (right obj) cs))"

text \<open>
  The representation invariant of the queue: the chain from \<open>head\<close> is \<open>cs\<close>, its
  addresses are pairwise distinct and allocated, \<open>length\<close> counts them, and when the
  chain is not empty \<open>tail\<close> refers to its last node.
\<close>

definition queue_inv :: "'a QueueLinked \<Rightarrow> (addr \<times> 'a) list \<Rightarrow> bool" where
  "queue_inv q cs =
     (cells (heap q) (head q) cs \<and> distinct (map fst cs) \<and>
      list_all (\<lambda>c. fst c < next_addr q) cs \<and> qlength q = int (length cs) \<and>
      (cs \<noteq> [] \<longrightarrow> tail q = Some (fst (last cs))))"

section \<open>String-keyed tree of class \<open>BST\<close> and its depth-first search\<close>

text \<open>
  A Python string is a sequence of Unicode code points; a code point is a natural
  number. \<open>ustr\<close> writes a string of 8-bit characters as such a sequence.
\<close>

type_synonym pystr = "nat list"

definition ustr :: "string \<Rightarrow> pystr" where
  "ustr s = map of_char s"

text \<open>
  \<open>str.lower()\<close> is a built-in that reads three tables of the Unicode character
  database: the full lower-case mapping of a code point (one to three code points),
  and the properties Cased and Case_Ignorable. The tables are a parameter \<open>U\<close> of the
  model. The method itself maps every code point through the first table, except
  the capital sigma 931: that becomes the final small sigma 962 when, case-ignorable
  code points skipped, a cased code point stands before it and none stands after it,
  and the small sigma 963 otherwise. \<open>lower_loop U pre s\<close> lowers \<open>s\<close>, where \<open>pre\<close>
  holds the code points before \<open>s\<close>, nearest first.
\<close>

record ucd =
  to_lower_full :: "nat \<Rightarrow> nat list"
  is_cased :: "nat \<Rightarrow> bool"
  is_case_ignorable :: "nat \<Rightarrow> bool"

fun final_sigma_before :: "ucd \<Rightarrow> nat list \<Rightarrow> bool" where
  "final_sigma_before U [] = False"
| "final_sigma_before U (c # cs) =
     (if is_case_ignorable U c then final_sigma_before U cs else is_cased U c)"

fun final_sigma_after :: "ucd \<Rightarrow> nat list \<Rightarrow> bool" where
  "final_sigma_after U [] = True"
| "final_sigma_after U (c # cs) =
     (if is_case_ignorable U c then final_sigma_after U cs else \<not> is_cased U c)"

fun lower_loop :: "ucd \<Rightarrow> nat list \<Rightarrow> nat list \<Rightarrow> nat list" where
  "lower_loop U pre [] = []"
| "lower_loop U pre (c # cs) =
     (if c = 931
      then [if final_sigma_before U pre \<and> final_sigma_after U cs then 962 else 963]
      else to_lower_full U c) @ lower_loop U (c # pre) cs"

definition lower :: "ucd \<Rightarrow> pystr \<Rightarrow> pystr" where
  "lower U s = lower_loop U [] s"

text \<open>
  An excerpt of the tables for the examples: the code points below 256 and the Greek
  letters 913 to 969. Capital letters move up by 32; the other code points of the
  excerpt are their own lower case. Code points outside the excerpt are not used
  with it.
\<close>

definition excerpt_lower :: "nat \<Rightarrow> nat list" where
  "excerpt_lower c =
     (if (65 \<le> c \<and> c \<le> 90) \<or> (192 \<le> c \<and> c \<le> 222 \<and> c \<noteq> 215) \<or>
         (913 \<le> c \<and> c \<le> 939 \<and> c \<noteq> 930)
      then [c + 32] else [c])"

definition excerpt_cased :: "nat \<Rightarrow> bool" where
  "excerpt_cased c =
     ((65 \<le> c \<and> c \<le> 90) \<or> (97 \<le> c \<and> c \<le> 122) \<or> c = 170 \<or> c = 181 \<or> c = 186 \<or>
      (192 \<le> c \<and> c \<le> 214) \<or> (216 \<le> c \<and> c \<le> 246) \<or> (248 \<le> c \<and> c \<le> 255) \<or>
      (913 \<le> c \<and> c \<le> 969 \<and> c \<noteq> 930))"

definition excerpt_ignorable :: "nat \<Rightarrow> bool" where
  "excerpt_ignorable c = (c \<in> set [39, 46, 58, 94, 96, 168, 173, 175, 180, 183, 184])"

definition ucd_excerpt :: ucd where
  "ucd_excerpt =
     \<lparr>to_lower_full = excerpt_lower, is_cased = excerpt_cased,
      is_case_ignorable = excerpt_ignorable\<rparr>"

text \<open>\<open>bytes.lower()\<close> changes the ASCII letters only.\<close>

definition bytes_lower_char :: "char \<Rightarrow> char" where
  "bytes_lower_char c =
     (let n = (of_char c :: nat) in if 65 \<le> n \<and> n \<le> 90 then char_of (n + 32) else c)"

text \<open>
  A node of the search tree may hold any value that a row of the table gives: text, a
  byte string, an integer or \<open>None\<close>. \<open>py_lower U v\<close> is \<open>v.lower()\<close>: integers and
  \<open>None\<close> have no such attribute. \<open>py_in w x\<close> is \<open>w in x\<close> for a string \<open>w\<close>: the
  substring test on a string, a \<open>TypeError\<close> on anything else.
\<close>

datatype pyval = PStr pystr | PBytes string | PInt int | PNone

definition py_lower :: "ucd \<Rightarrow> pyval \<Rightarrow> error + pyval" where
  "py_lower U v =
     (case v of
        PStr s \<Rightarrow> Inr (PStr (lower U s))
      | PBytes b \<Rightarrow> Inr (PBytes (map bytes_lower_char b))
      | PInt i \<Rightarrow> Inl AttributeError
      | PNone \<Rightarrow> Inl AttributeError)"

definition py_in :: "pystr \<Rightarrow> pyval \<Rightarrow> error + bool" where
  "py_in w x =
     (case x of
        PStr s \<Rightarrow> Inr (sublist w s)
      | PBytes b \<Rightarrow> Inl TypeError
      | PInt i \<Rightarrow> Inl TypeError
      | PNone \<Rightarrow> Inl TypeError)"

text \<open>The condition of the \<open>try\<close> block, \<^verbatim>\<open>w in node.node.lower()\<close>.\<close>

definition substring_test :: "ucd \<Rightarrow> pystr \<Rightarrow> pyval \<Rightarrow> error + bool" where
  "substring_test U w v =
     (case py_lower U v of Inl e \<Rightarrow> Inl e | Inr lv \<Rightarrow> py_in w lv)"

text \<open>
  The inner function \<open>walk\<close> appends to the list \<open>results\<close> of the enclosing call. The
  state that \<open>walk\<close> threads is that list together with \<open>visited\<close>, a ghost list that
  the source does not have: it records the value of every node on which the body of
  \<open>walk\<close> runs, in order, so that the traversal itself can be stated.

  \<open>walk\<close> calls itself on both children, also on a child that is \<open>None\<close>, and every
  call needs a frame of the interpreter's call stack, whose depth is limited. The
  third argument is the number of nested calls that the interpreter still allows:
  a call made when none is left raises \<open>RecursionError\<close>.

  \<^verbatim>\<open>except Exception: pass\<close> catches every error of the \<open>try\<close> block and leaves
  \<open>results\<close> as it was. The two recursive calls are outside the \<open>try\<close> block, so an
  error of theirs leaves \<open>walk\<close>.
\<close>

record walk_state =
  results :: "pyval list"
  visited :: "pyval list"

fun walk :: "ucd \<Rightarrow> pystr \<Rightarrow> nat \<Rightarrow> pyval Node \<Rightarrow> walk_state \<Rightarrow> error + walk_state" where
  "walk U w 0 n st = Inl RecursionError"
| "walk U w (Suc k) NNone st = Inr st"
| "walk U w (Suc k) (Node v l r) st =
     (let st1 = st\<lparr>visited := visited st @ [v]\<rparr>;
          st2 = (case substring_test U w v of
                   Inl e \<Rightarrow> st1
                 | Inr b \<Rightarrow> if b then st1\<lparr>results := results st1 @ [v]\<rparr> else st1)
      in case walk U w k l st2 of
           Inl e \<Rightarrow> Inl e
         | Inr st3 \<Rightarrow> walk U w k r st3)"

text \<open>
  \<^verbatim>\<open>BST.dfs_search(self, word)\<close> for a string \<open>word\<close>; \<open>frames\<close> is the number of nested
  calls that the interpreter allows when \<open>walk(self.root)\<close> is called. The field
  \<open>results\<close> of the final state is the list that the method returns.
\<close>

definition dfs_search :: "ucd \<Rightarrow> nat \<Rightarrow> pyval Node \<Rightarrow> pystr \<Rightarrow> error + walk_state" where
  "dfs_search U frames root word =
     (if word = [] then Inr \<lparr>results = [], visited = []\<rparr>
      else walk U (lower U word) frames root \<lparr>results = [], visited = []\<rparr>)"

text \<open>
  \<^verbatim>\<open>BST.insert(self, data)\<close> on strings (\<open>data expected as string\<close>): the loop descends
  by \<open>data < cur.node\<close>, the order of Python strings, which compares code points
  lexicographically, and links the new node into the first empty slot it reaches.
\<close>

fun BST_insert :: "pystr Node \<Rightarrow> pystr \<Rightarrow> pystr Node" where
  "BST_insert NNone data = Node data NNone NNone"
| "BST_insert (Node x l r) data =
     (if data < x then Node x (BST_insert l data) r
      else Node x l (BST_insert r data))"

text \<open>
  \<^verbatim>\<open>perform_bst_search(keyword)\<close>; \<open>titles\<close> are the titles of the posts that
  \<open>get_feed_stack()\<close> returns, in its order, read from the table.
\<close>

definition perform_bst_search :: "ucd \<Rightarrow> nat \<Rightarrow> pystr list \<Rightarrow> pystr \<Rightarrow> error + walk_state" where
  "perform_bst_search U frames titles keyword =
     dfs_search U frames (map_Node PStr (foldl BST_insert NNone titles)) keyword"

text \<open>The values of a tree in the order node, left subtree, right subtree.\<close>

fun preorder :: "'a Node \<Rightarrow> 'a list" where
  "preorder NNone = []"
| "preorder (Node v l r) = v # preorder l @ preorder r"

text \<open>The number of nodes on the longest path from the root down.\<close>

fun node_height :: "'a Node \<Rightarrow> nat" where
  "node_height NNone = 0"
| "node_height (Node v l r) = 1 + max (node_height l) (node_height r)"

text \<open>A chain of \<open>n\<close> nodes with the value \<open>v\<close>, linked through \<open>right\<close>.\<close>

fun right_chain :: "nat \<Rightarrow> 'a \<Rightarrow> 'a Node" where
  "right_chain 0 v = NNone"
| "right_chain (Suc n) v = Node v NNone (right_chain n v)"



section \<open>Generic tree: level-order insertion\<close>

text \<open>
  The loop of \<open>tree_insert_route\<close> keeps a list \<open>q\<close> of node references. The nodes of a
  tree are not shared, so a reference into the tree is the path of child slots that
  leads from the root to the node; the list holds each path with the subtree found
  there, which the loop only reads before it stops.
\<close>

datatype slot = LeftSlot | RightSlot

type_synonym path = "slot list"

text \<open>
  The loop \<^verbatim>\<open>while q: node = q.pop(0); ...\<close>. Its result is the slot where the new node
  is to be linked, \<open>None\<close> when the list runs empty without a \<open>break\<close>, and an
  \<open>AttributeError\<close> when \<open>node\<close> is \<open>None\<close> and \<open>node.left\<close> is read.
\<close>

function bfs_slot :: "(path \<times> 'a TreeNode) list \<Rightarrow> error + (path \<times> slot) option" where
  "bfs_slot [] = Inr None"
| "bfs_slot ((p, TNone) # q) = Inl AttributeError"
| "bfs_slot ((p, TreeNode v l r) # q) =
     (if l = TNone then Inr (Some (p, LeftSlot))
      else if r = TNone then Inr (Some (p, RightSlot))
      else bfs_slot (q @ [(p @ [LeftSlot], l), (p @ [RightSlot], r)]))"
  by pat_completeness auto
termination
  by (relation "measure (\<lambda>q. sum_list (map (\<lambda>x. size (snd x)) q))") auto

text \<open>\<open>node.left = new_node\<close> or \<open>node.right = new_node\<close> at the node that \<open>p\<close> leads to.\<close>

fun set_slot :: "path \<Rightarrow> slot \<Rightarrow> 'a TreeNode \<Rightarrow> 'a TreeNode \<Rightarrow> 'a TreeNode" where
  "set_slot p s n TNone = TNone"
| "set_slot [] LeftSlot n (TreeNode v l r) = TreeNode v n r"
| "set_slot [] RightSlot n (TreeNode v l r) = TreeNode v l n"
| "set_slot (LeftSlot # p) s n (TreeNode v l r) = TreeNode v (set_slot p s n l) r"
| "set_slot (RightSlot # p) s n (TreeNode v l r) = TreeNode v l (set_slot p s n r)"

text \<open>The insertion of \<open>tree_insert_route\<close>, from \<open>new_node = TreeNode(val)\<close> on.\<close>

definition tree_insert :: "'a TreeNode \<Rightarrow> 'a \<Rightarrow> error + 'a TreeNode" where
  "tree_insert root v =
     (let new_node = TreeNode v TNone TNone
      in if root = TNone then Inr new_node
         else case bfs_slot [([], root)] of
                Inl e \<Rightarrow> Inl e
              | Inr None \<Rightarrow> Inr root
              | Inr (Some (p, s)) \<Rightarrow> Inr (set_slot p s new_node root))"

text \<open>
  Breadth-first order in the words of the specification: level by level, each level
  from left to right, and at a node the first child slot before the second.
  \<open>nodes_at n p t\<close> lists the nodes of \<open>t\<close> at depth \<open>n\<close> from left to right, each with
  its path, \<open>p\<close> being the path of \<open>t\<close> itself; \<open>level_order_slots t\<close> lists the empty
  child slots of \<open>t\<close> in breadth-first order.
\<close>

fun nodes_at :: "nat \<Rightarrow> path \<Rightarrow> 'a TreeNode \<Rightarrow> (path \<times> 'a TreeNode) list" where
  "nodes_at n p TNone = []"
| "nodes_at 0 p (TreeNode v l r) = [(p, TreeNode v l r)]"
| "nodes_at (Suc n) p (TreeNode v l r) =
     nodes_at n (p @ [LeftSlot]) l @ nodes_at n (p @ [RightSlot]) r"

fun free_slots :: "path \<times> 'a TreeNode \<Rightarrow> (path \<times> slot) list" where
  "free_slots (p, TNone) = []"
| "free_slots (p, TreeNode v l r) =
     (if l = TNone then [(p, LeftSlot)] else []) @ (if r = TNone then [(p, RightSlot)] else [])"

fun tree_height :: "'a TreeNode \<Rightarrow> nat" where
  "tree_height TNone = 0"
| "tree_height (TreeNode v l r) = 1 + max (tree_height l) (tree_height r)"

definition level_order_slots :: "'a TreeNode \<Rightarrow> (path \<times> slot) list" where
  "level_order_slots t =
     concat (map (\<lambda>n. concat (map free_slots (nodes_at n [] t))) [0..<tree_height t])"

text \<open>The subtree that a path leads to; \<open>None\<close> when the path leaves the tree.\<close>

fun child_at :: "path \<Rightarrow> 'a TreeNode \<Rightarrow> 'a TreeNode" where
  "child_at p TNone = TNone"
| "child_at [] (TreeNode v l r) = TreeNode v l r"
| "child_at (LeftSlot # p) (TreeNode v l r) = child_at p l"
| "child_at (RightSlot # p) (TreeNode v l r) = child_at p r"

text \<open>
  Notions for the proofs about the loop: a node is \<open>full\<close> when both child slots are
  taken; \<open>children\<close> are the subtrees in the taken slots; \<open>level n q\<close> and \<open>slots q\<close>
  extend \<open>nodes_at\<close> and \<open>free_slots\<close> to a list of subtrees; \<open>first\<close> is the first
  element of a list, if any.
\<close>

fun full :: "path \<times> 'a TreeNode \<Rightarrow> bool" where
  "full (p, TNone) = False"
| "full (p, TreeNode v l r) = (l \<noteq> TNone \<and> r \<noteq> TNone)"

fun children :: "path \<times> 'a TreeNode \<Rightarrow> (path \<times> 'a TreeNode) list" where
  "children (p, TNone) = []"
| "children (p, TreeNode v l r) =
     (if l = TNone then [] else [(p @ [LeftSlot], l)]) @
     (if r = TNone then [] else [(p @ [RightSlot], r)])"

definition level :: "nat \<Rightarrow> (path \<times> 'a TreeNode) list \<Rightarrow> (path \<times> 'a TreeNode) list" where
  "level n q = concat (map (\<lambda>x. nodes_at n (fst x) (snd x)) q)"

definition slots :: "(path \<times> 'a TreeNode) list \<Rightarrow> (path \<times> slot) list" where
  "slots q = concat (map free_slots q)"

definition first :: "'b list \<Rightarrow> 'b option" where
  "first xs = (case xs of [] \<Rightarrow> None | x # ys \<Rightarrow> Some x)"

section \<open>Request handlers of the visualizer\<close>

text \<open>
  A handler reads \<open>request.json.get("value", ...)\<close> from a body that is a JSON object.
  \<open>json\<close> is the value found under the key: \<open>null\<close>, a boolean, an integer, a string,
  an array or an object (the contents of arrays and objects play no part here;
  numbers with a fraction are left out). The request is \<open>None\<close> when the key is absent,
  and \<open>get_value\<close> is \<open>dict.get\<close> with its default.
\<close>

datatype json = JNull | JBool bool | JInt int | JStr string | JArray | JObject

definition get_value :: "json \<Rightarrow> json option \<Rightarrow> json" where
  "get_value dflt req = (case req of None \<Rightarrow> dflt | Some v \<Rightarrow> v)"

text \<open>
  \<open>str.strip()\<close> removes the leading and trailing white space, which among the code
  points below 256 is 9 to 13, 28 to 32, 133 and 160. Only strings have the method.
\<close>

definition is_space :: "char \<Rightarrow> bool" where
  "is_space c =
     (let n = (of_char c :: nat)
      in (9 \<le> n \<and> n \<le> 13) \<or> (28 \<le> n \<and> n \<le> 32) \<or> n = 133 \<or> n = 160)"

definition strip :: "string \<Rightarrow> string" where
  "strip s = rev (dropWhile is_space (rev (dropWhile is_space s)))"

definition py_strip :: "json \<Rightarrow> error + string" where
  "py_strip v = (case v of JStr s \<Rightarrow> Inr (strip s) | _ \<Rightarrow> Inl AttributeError)"

text \<open>
  \<open>int(x)\<close>. The conversion of a string is a built-in of the interpreter and a
  parameter of the model: \<open>parse s\<close> is the integer that \<open>int\<close> reads from the string
  \<open>s\<close>, or \<open>None\<close> when \<open>int\<close> raises \<open>ValueError\<close>. A boolean counts as 0 or 1;
  \<open>None\<close>, arrays and objects are a \<open>TypeError\<close>.
\<close>

definition py_int :: "(string \<Rightarrow> int option) \<Rightarrow> json \<Rightarrow> error + int" where
  "py_int parse v =
     (case v of
        JNull \<Rightarrow> Inl TypeError
      | JBool b \<Rightarrow> Inr (if b then 1 else 0)
      | JInt i \<Rightarrow> Inr i
      | JStr s \<Rightarrow> (case parse s of None \<Rightarrow> Inl ValueError | Some i \<Rightarrow> Inr i)
      | JArray \<Rightarrow> Inl TypeError
      | JObject \<Rightarrow> Inl TypeError)"

text \<open>
  What a handler answers: \<open>{"ok": False}\<close>, \<open>{"ok": False, "error": ...}\<close>,
  \<open>{"ok": True, "svg": ...}\<close> with the tree that is drawn in place of its drawing, and
  \<open>{"ok": True, "found": ...}\<close>. A handler takes the global root and the request and
  gives the answer with the new root, or the exception that leaves it.
\<close>

datatype 'a response = Fail | FailError string | OkSvg "'a TreeNode" | OkFound bool

text \<open>\<^verbatim>\<open>tree_insert_route()\<close>.\<close>

definition tree_insert_route ::
  "string TreeNode \<Rightarrow> json option \<Rightarrow> error + (string response \<times> string TreeNode)" where
  "tree_insert_route tree_root req =
     (case py_strip (get_value (JStr []) req) of
        Inl e \<Rightarrow> Inl e
      | Inr val \<Rightarrow>
          if val = [] then Inr (Fail, tree_root)
          else (case tree_insert tree_root val of
                  Inl e \<Rightarrow> Inl e
                | Inr root' \<Rightarrow> Inr (OkSvg root', root')))"

fun tree_requests :: "string TreeNode \<Rightarrow> json option list \<Rightarrow> error + string TreeNode" where
  "tree_requests root [] = Inr root"
| "tree_requests root (req # reqs) =
     (case tree_insert_route root req of
        Inl e \<Rightarrow> Inl e
      | Inr (resp, root') \<Rightarrow> tree_requests root' reqs)"

text \<open>
  \<^verbatim>\<open>bst_insert_route()\<close>: \<open>.strip()\<close> is called on the value before the \<open>try\<close> block; the
  bare \<open>except\<close> around \<open>int(val)\<close> catches every error of the conversion.
\<close>

definition bst_insert_route ::
  "(string \<Rightarrow> int option) \<Rightarrow> int TreeNode \<Rightarrow> json option \<Rightarrow>
     error + (int response \<times> int TreeNode)" where
  "bst_insert_route parse bst_root req =
     (case py_strip (get_value (JStr []) req) of
        Inl e \<Rightarrow> Inl e
      | Inr val \<Rightarrow>
          if val = [] then Inr (Fail, bst_root)
          else (case py_int parse (JStr val) of
                  Inl e \<Rightarrow> Inr (FailError ''numeric only'', bst_root)
                | Inr num \<Rightarrow>
                    (let root' = bst_insert bst_root num in Inr (OkSvg root', root'))))"

text \<open>\<^verbatim>\<open>bst_search_route()\<close>: the value is read without a default and without \<open>.strip()\<close>.\<close>

definition bst_search_route ::
  "(string \<Rightarrow> int option) \<Rightarrow> int TreeNode \<Rightarrow> json option \<Rightarrow>
     error + (int response \<times> int TreeNode)" where
  "bst_search_route parse bst_root req =
     (case py_int parse (get_value JNull req) of
        Inl e \<Rightarrow> Inr (Fail, bst_root)
      | Inr num \<Rightarrow> Inr (OkFound (bst_search bst_root num), bst_root))"

text \<open>\<^verbatim>\<open>bst_delete_route()\<close>.\<close>

definition bst_delete_route ::
  "(string \<Rightarrow> int option) \<Rightarrow> int TreeNode \<Rightarrow> json option \<Rightarrow>
     error + (int response \<times> int TreeNode)" where
  "bst_delete_route parse bst_root req =
     (case py_int parse (get_value JNull req) of
        Inl e \<Rightarrow> Inr (Fail, bst_root)
      | Inr num \<Rightarrow>
          (let root' = bst_delete bst_root num in Inr (OkSvg root', root')))"

section \<open>Properties of the numeric tree\<close>

subsection \<open>Facts about the numeric tree\<close>

lemma keys_bst_insert: "set (keys (bst_insert t v)) = insert v (set (keys t))"
  by (induction t) auto

lemma bst_find_max_node: "t \<noteq> TNone \<Longrightarrow> \<exists>m. bst_find_max t = Some m"
  by (induction t rule: bst_find_max.induct) (auto split: TreeNode.splits)

lemma bst_find_max_mem: "bst_find_max t = Some m \<Longrightarrow> m \<in> set (keys t)"
  by (induction t rule: bst_find_max.induct) (auto split: TreeNode.splits)

lemma bst_find_max_upper:
  "bst_weak t \<Longrightarrow> bst_find_max t = Some m \<Longrightarrow> k \<in> set (keys t) \<Longrightarrow> k \<le> m"
proof (induction t rule: bst_find_max.induct)
  case 1
  then show ?case by simp
next
  case (2 x l r)
  show ?case
  proof (cases r)
    case TNone
    with 2 show ?thesis by (auto simp: list_all_iff)
  next
    case (TreeNode y rl rr)
    with 2 have m: "bst_find_max r = Some m" and wr: "bst_weak r" by auto
    from m have "m \<in> set (keys r)" by (rule bst_find_max_mem)
    with 2(2) have xm: "x \<le> m" by (auto simp: list_all_iff)
    from 2(4) consider "k = x" | "k \<in> set (keys l)" | "k \<in> set (keys r)" by auto
    then show ?thesis
    proof cases
      case 1
      with xm show ?thesis by simp
    next
      case 2
      with \<open>bst_weak (TreeNode x l r)\<close> have "k \<le> x" by (auto simp: list_all_iff)
      with xm show ?thesis by simp
    next
      case 3
      with "2.IH" TreeNode wr m show ?thesis by simp
    qed
  qed
qed

lemma bst_inv_weak: "bst_inv t \<Longrightarrow> bst_weak t"
  by (induction t) (auto simp: list_all_iff)

lemma keys_bst_delete_subset: "set (keys (bst_delete t v)) \<subseteq> set (keys t)"
proof (induction t v rule: bst_delete.induct)
  case (1 v)
  then show ?case by simp
next
  case (2 x l r v)
  then show ?case
    by (auto split: option.splits dest: bst_find_max_mem)
qed

lemma bst_weak_insert: "bst_weak t \<Longrightarrow> bst_weak (bst_insert t v)"
  by (induction t) (auto simp: list_all_iff keys_bst_insert)

lemma bst_weak_delete: "bst_weak t \<Longrightarrow> bst_weak (bst_delete t v)"
proof (induction t v rule: bst_delete.induct)
  case (1 v)
  then show ?case by simp
next
  case (2 x l r v)
  from "2.prems" have wl: "bst_weak l" and wr: "bst_weak r"
    and ll: "\<forall>k\<in>set (keys l). k \<le> x" and rr: "\<forall>k\<in>set (keys r). x \<le> k"
    by (auto simp: list_all_iff)
  consider (lt) "v < x" | (gt) "\<not> v < x" "v > x"
    | (leaf) "\<not> v < x" "\<not> v > x" "l = TNone \<and> r = TNone"
    | (nol) "\<not> v < x" "\<not> v > x" "\<not> (l = TNone \<and> r = TNone)" "l = TNone"
    | (nor) "\<not> v < x" "\<not> v > x" "\<not> (l = TNone \<and> r = TNone)" "l \<noteq> TNone" "r = TNone"
    | (two) "\<not> v < x" "\<not> v > x" "\<not> (l = TNone \<and> r = TNone)" "l \<noteq> TNone" "r \<noteq> TNone"
    by blast
  then show ?case
  proof cases
    case lt
    have "set (keys (bst_delete l v)) \<subseteq> set (keys l)" by (rule keys_bst_delete_subset)
    with lt "2.IH"(1) wl wr ll rr show ?thesis by (auto simp: list_all_iff)
  next
    case gt
    have "set (keys (bst_delete r v)) \<subseteq> set (keys r)" by (rule keys_bst_delete_subset)
    with gt "2.IH"(2) wl wr ll rr show ?thesis by (auto simp: list_all_iff)
  next
    case leaf
    then show ?thesis by simp
  next
    case nol
    with wr show ?thesis by simp
  next
    case nor
    with wl show ?thesis by simp
  next
    case two
    from two(4) obtain m where m: "bst_find_max l = Some m"
      using bst_find_max_node by blast
    have mem: "m \<in> set (keys l)" using m by (rule bst_find_max_mem)
    with ll have mx: "m \<le> x" by blast
    have sub: "set (keys (bst_delete l m)) \<subseteq> set (keys l)" by (rule keys_bst_delete_subset)
    have up: "\<forall>k\<in>set (keys (bst_delete l m)). k \<le> m"
      using sub bst_find_max_upper [OF wl m] by blast
    have w': "bst_weak (bst_delete l m)"
      using "2.IH"(3) two m wl by simp
    from rr mx have "\<forall>k\<in>set (keys r). m \<le> k" by auto
    with two m w' wr up show ?thesis by (simp add: list_all_iff)
  qed
qed

lemma bst_search_weak: "bst_weak t \<Longrightarrow> bst_search t k \<longleftrightarrow> k \<in> set (keys t)"
  by (induction t) (auto simp: list_all_iff)

lemma bst_strict_inv: "bst_strict t \<Longrightarrow> bst_inv t"
  by (induction t) (auto simp: list_all_iff)

lemma bst_strict_weak: "bst_strict t \<Longrightarrow> bst_weak t"
  by (induction t) (auto simp: list_all_iff)

lemma bst_strict_insert:
  "bst_strict t \<Longrightarrow> v \<notin> set (keys t) \<Longrightarrow> bst_strict (bst_insert t v)"
  by (induction t) (auto simp: list_all_iff keys_bst_insert)

lemma bst_strict_delete:
  "bst_strict t \<Longrightarrow>
     bst_strict (bst_delete t v) \<and> set (keys (bst_delete t v)) = set (keys t) - {v}"
proof (induction t v rule: bst_delete.induct)
  case (1 v)
  then show ?case by simp
next
  case (2 x l r v)
  from "2.prems" have sl: "bst_strict l" and sr: "bst_strict r"
    and ll: "\<forall>k\<in>set (keys l). k < x" and rr: "\<forall>k\<in>set (keys r). x < k"
    by (auto simp: list_all_iff)
  consider (lt) "v < x" | (gt) "\<not> v < x" "v > x"
    | (leaf) "\<not> v < x" "\<not> v > x" "l = TNone \<and> r = TNone"
    | (nol) "\<not> v < x" "\<not> v > x" "\<not> (l = TNone \<and> r = TNone)" "l = TNone"
    | (nor) "\<not> v < x" "\<not> v > x" "\<not> (l = TNone \<and> r = TNone)" "l \<noteq> TNone" "r = TNone"
    | (two) "\<not> v < x" "\<not> v > x" "\<not> (l = TNone \<and> r = TNone)" "l \<noteq> TNone" "r \<noteq> TNone"
    by blast
  then show ?case
  proof cases
    case lt
    from "2.IH"(1) [OF lt sl]
    have a: "bst_strict (bst_delete l v)" and b: "set (keys (bst_delete l v)) = set (keys l) - {v}"
      by simp_all
    from lt a b sr ll rr show ?thesis by (auto simp: list_all_iff)
  next
    case gt
    from "2.IH"(2) [OF gt sr]
    have a: "bst_strict (bst_delete r v)" and b: "set (keys (bst_delete r v)) = set (keys r) - {v}"
      by simp_all
    from gt a b sl ll rr show ?thesis by (auto simp: list_all_iff)
  next
    case leaf
    then show ?thesis by auto
  next
    case nol
    with sr rr show ?thesis by auto
  next
    case nor
    with sl ll show ?thesis by auto
  next
    case two
    then have vx: "v = x" by simp
    from two(4) obtain m where m: "bst_find_max l = Some m"
      using bst_find_max_node by blast
    have mem: "m \<in> set (keys l)" using m by (rule bst_find_max_mem)
    with ll have mx: "m < x" by blast
    from "2.IH"(3) two m sl
    have a: "bst_strict (bst_delete l m)" and b: "set (keys (bst_delete l m)) = set (keys l) - {m}"
      by simp_all
    have up: "\<forall>k\<in>set (keys (bst_delete l m)). k < m"
      using b bst_find_max_upper [OF bst_strict_weak [OF sl] m] by fastforce
    from rr mx have rm: "\<forall>k\<in>set (keys r). m < k" by auto
    have eq: "bst_delete (TreeNode x l r) v = TreeNode m (bst_delete l m) r"
      using two m by simp
    have "bst_strict (TreeNode m (bst_delete l m) r)"
      using a sr up rm by (simp add: list_all_iff)
    moreover have "set (keys (TreeNode m (bst_delete l m) r)) = set (keys (TreeNode x l r)) - {v}"
      using b mem ll rr vx by auto
    ultimately show ?thesis using eq by simp
  qed
qed

lemma bst_weak_foldl: "bst_weak t \<Longrightarrow> bst_weak (foldl bst_apply t ops)"
proof (induction ops arbitrary: t)
  case Nil
  then show ?case by simp
next
  case (Cons a ops)
  then show ?case by (cases a) (simp_all add: bst_weak_insert bst_weak_delete)
qed

lemma bst_strict_foldl_insert:
  "bst_strict t \<Longrightarrow> distinct xs \<Longrightarrow> set xs \<inter> set (keys t) = {} \<Longrightarrow>
     bst_strict (foldl bst_insert t xs) \<and>
     set (keys (foldl bst_insert t xs)) = set (keys t) \<union> set xs"
proof (induction xs arbitrary: t)
  case Nil
  then show ?case by simp
next
  case (Cons x xs)
  from Cons.prems have s: "bst_strict (bst_insert t x)"
    by (simp add: bst_strict_insert)
  from Cons.prems have d: "distinct xs"
    and i: "set xs \<inter> set (keys (bst_insert t x)) = {}"
    by (auto simp: keys_bst_insert)
  from Cons.IH [OF s d i] show ?case by (auto simp: keys_bst_insert)
qed

lemma bst_strict_foldl_delete:
  "bst_strict t \<Longrightarrow>
     bst_strict (foldl bst_delete t ds) \<and>
     set (keys (foldl bst_delete t ds)) = set (keys t) - set ds"
proof (induction ds arbitrary: t)
  case Nil
  then show ?case by simp
next
  case (Cons d ds)
  from bst_strict_delete [OF Cons.prems, of d]
  have s: "bst_strict (bst_delete t d)"
    and k: "set (keys (bst_delete t d)) = set (keys t) - {d}" by simp_all
  from Cons.IH [OF s] k show ?case by auto
qed

lemma bst_inv_insert: "bst_inv t \<Longrightarrow> bst_inv (bst_insert t v)"
  by (induction t) (auto simp: list_all_iff keys_bst_insert)

lemma count_keys_absent: "k \<notin> set (keys t) \<Longrightarrow> count_list (keys t) k = 0"
  by (simp add: count_list_0_iff)

lemma count_keys_present: "k \<in> set (keys t) \<Longrightarrow> 0 < count_list (keys t) k"
  using count_list_0_iff [of "keys t" k] by auto

lemma count_keys_delete:
  "bst_weak t \<Longrightarrow>
     count_list (keys (bst_delete t v)) k =
       (if k = v then count_list (keys t) k - 1 else count_list (keys t) k)"
proof (induction t v rule: bst_delete.induct)
  case (1 v)
  then show ?case by simp
next
  case (2 x l r v)
  from "2.prems" have wl: "bst_weak l" and wr: "bst_weak r"
    and ll: "\<forall>k\<in>set (keys l). k \<le> x" and rr: "\<forall>k\<in>set (keys r). x \<le> k"
    by (auto simp: list_all_iff)
  consider (lt) "v < x" | (gt) "\<not> v < x" "v > x"
    | (leaf) "\<not> v < x" "\<not> v > x" "l = TNone \<and> r = TNone"
    | (nol) "\<not> v < x" "\<not> v > x" "\<not> (l = TNone \<and> r = TNone)" "l = TNone"
    | (nor) "\<not> v < x" "\<not> v > x" "\<not> (l = TNone \<and> r = TNone)" "l \<noteq> TNone" "r = TNone"
    | (two) "\<not> v < x" "\<not> v > x" "\<not> (l = TNone \<and> r = TNone)" "l \<noteq> TNone" "r \<noteq> TNone"
    by blast
  then show ?case
  proof cases
    case lt
    from lt rr have "v \<notin> set (keys r)" by auto
    then have r0: "count_list (keys r) v = 0" by (rule count_keys_absent)
    from "2.IH"(1) [OF lt wl] lt r0 show ?thesis by auto
  next
    case gt
    from gt ll have "v \<notin> set (keys l)" by auto
    then have l0: "count_list (keys l) v = 0" by (rule count_keys_absent)
    from "2.IH"(2) [OF gt wr] gt l0 show ?thesis by auto
  next
    case leaf
    then show ?thesis by auto
  next
    case nol
    then show ?thesis by auto
  next
    case nor
    then show ?thesis by auto
  next
    case two
    then have vx: "v = x" by simp
    from two(4) obtain m where m: "bst_find_max l = Some m"
      using bst_find_max_node by blast
    have "m \<in> set (keys l)" using m by (rule bst_find_max_mem)
    then have pos: "0 < count_list (keys l) m" by (rule count_keys_present)
    have ih: "count_list (keys (bst_delete l m)) k =
        (if k = m then count_list (keys l) k - 1 else count_list (keys l) k)"
      using "2.IH"(3) two m wl by simp
    have eq: "bst_delete (TreeNode x l r) v = TreeNode m (bst_delete l m) r"
      using two m by simp
    show ?thesis unfolding eq using ih pos vx by auto
  qed
qed

lemma unique_promotion_max:
  "bst_weak t \<Longrightarrow> bst_find_max t = Some m \<Longrightarrow> count_list (keys t) m = 1 \<Longrightarrow>
     unique_promotion t m"
proof (induction t)
  case TNone
  then show ?case by simp
next
  case (TreeNode y l r)
  from TreeNode.prems(1) have wl: "bst_weak l" and wr: "bst_weak r"
    and ll: "\<forall>k\<in>set (keys l). k \<le> y" and rr: "\<forall>k\<in>set (keys r). y \<le> k"
    by (auto simp: list_all_iff)
  have ym: "y \<le> m"
    using bst_find_max_upper [OF TreeNode.prems(1) TreeNode.prems(2), of y] by simp
  show ?case
  proof (cases "y = m")
    case True
    have "l = TNone \<or> r = TNone"
    proof (rule ccontr)
      assume "\<not> (l = TNone \<or> r = TNone)"
      then obtain z rl rr' where r: "r = TreeNode z rl rr'" by (cases r) auto
      with TreeNode.prems(2) have "bst_find_max r = Some m" by simp
      then have "m \<in> set (keys r)" by (rule bst_find_max_mem)
      then have "0 < count_list (keys r) m" by (rule count_keys_present)
      with TreeNode.prems(3) True show False by simp
    qed
    with True show ?thesis by auto
  next
    case False
    with ym have lt: "y < m" by simp
    with ll have "m \<notin> set (keys l)" by auto
    then have l0: "count_list (keys l) m = 0" by (rule count_keys_absent)
    from TreeNode.prems(2) False obtain z rl rr' where r: "r = TreeNode z rl rr'"
      by (cases r) auto
    with TreeNode.prems(2) have mr: "bst_find_max r = Some m" by simp
    from TreeNode.prems(3) False l0 have cr: "count_list (keys r) m = 1" by simp
    from TreeNode.IH(2) [OF wr mr cr] lt show ?thesis by simp
  qed
qed

lemma bst_inv_delete_iff:
  "bst_inv t \<Longrightarrow> bst_inv (bst_delete t v) \<longleftrightarrow> unique_promotion t v"
proof (induction t v rule: bst_delete.induct)
  case (1 v)
  then show ?case by simp
next
  case (2 x l r v)
  from "2.prems" have il: "bst_inv l" and ir: "bst_inv r"
    and ll: "\<forall>k\<in>set (keys l). k < x" and rr: "\<forall>k\<in>set (keys r). x \<le> k"
    by (auto simp: list_all_iff)
  consider (lt) "v < x" | (gt) "\<not> v < x" "v > x"
    | (leaf) "\<not> v < x" "\<not> v > x" "l = TNone \<and> r = TNone"
    | (nol) "\<not> v < x" "\<not> v > x" "\<not> (l = TNone \<and> r = TNone)" "l = TNone"
    | (nor) "\<not> v < x" "\<not> v > x" "\<not> (l = TNone \<and> r = TNone)" "l \<noteq> TNone" "r = TNone"
    | (two) "\<not> v < x" "\<not> v > x" "\<not> (l = TNone \<and> r = TNone)" "l \<noteq> TNone" "r \<noteq> TNone"
    by blast
  then show ?case
  proof cases
    case lt
    have "set (keys (bst_delete l v)) \<subseteq> set (keys l)" by (rule keys_bst_delete_subset)
    with ll have "\<forall>k\<in>set (keys (bst_delete l v)). k < x" by blast
    with "2.IH"(1) [OF lt il] lt ir rr show ?thesis by (simp add: list_all_iff)
  next
    case gt
    have "set (keys (bst_delete r v)) \<subseteq> set (keys r)" by (rule keys_bst_delete_subset)
    with rr have "\<forall>k\<in>set (keys (bst_delete r v)). x \<le> k" by blast
    with "2.IH"(2) [OF gt ir] gt il ll show ?thesis by (simp add: list_all_iff)
  next
    case leaf
    then show ?thesis by simp
  next
    case nol
    with ir show ?thesis by simp
  next
    case nor
    with il show ?thesis by simp
  next
    case two
    from two(4) obtain m where m: "bst_find_max l = Some m"
      using bst_find_max_node by blast
    have wl: "bst_weak l" using il by (rule bst_inv_weak)
    have mem: "m \<in> set (keys l)" using m by (rule bst_find_max_mem)
    with ll have mx: "m < x" by blast
    with rr have rm: "\<forall>k\<in>set (keys r). m \<le> k" by auto
    have eq: "bst_delete (TreeNode x l r) v = TreeNode m (bst_delete l m) r"
      using two m by simp
    have up: "unique_promotion (TreeNode x l r) v \<longleftrightarrow> count_list (keys l) m = 1"
      using two m by simp
    have cnt: "count_list (keys (bst_delete l m)) m = count_list (keys l) m - 1"
      using count_keys_delete [OF wl, of m m] by simp
    have sub: "set (keys (bst_delete l m)) \<subseteq> set (keys l)" by (rule keys_bst_delete_subset)
    have le: "\<forall>k\<in>set (keys (bst_delete l m)). k \<le> m"
      using sub bst_find_max_upper [OF wl m] by blast
    show ?thesis
    proof (cases "count_list (keys l) m = 1")
      case True
      from unique_promotion_max [OF wl m True] have "unique_promotion l m" .
      with "2.IH"(3) two m il have i': "bst_inv (bst_delete l m)" by simp
      from cnt True have "m \<notin> set (keys (bst_delete l m))"
        by (simp add: count_list_0_iff)
      with le have "\<forall>k\<in>set (keys (bst_delete l m)). k < m"
        by (metis le_less)
      with i' ir rm have "bst_inv (TreeNode m (bst_delete l m) r)"
        by (simp add: list_all_iff)
      with eq up True show ?thesis by simp
    next
      case False
      from mem have "0 < count_list (keys l) m" by (rule count_keys_present)
      with False cnt have "0 < count_list (keys (bst_delete l m)) m" by simp
      then have "m \<in> set (keys (bst_delete l m))"
        by (metis count_list_0_iff less_numeral_extra(3))
      then have "\<not> bst_inv (TreeNode m (bst_delete l m) r)"
        by (auto simp: list_all_iff)
      with eq up False show ?thesis by simp
    qed
  qed
qed

lemma bst_inv_foldl:
  "bst_inv t \<Longrightarrow> unique_promotions ops t \<Longrightarrow> bst_inv (foldl bst_apply t ops)"
proof (induction ops arbitrary: t)
  case Nil
  then show ?case by simp
next
  case (Cons a ops)
  then show ?case by (cases a) (simp_all add: bst_inv_insert bst_inv_delete_iff)
qed

subsection \<open>Deleting a node with two children\<close>

text \<open>
  Claim C1, as the specification states it: after inserting 5, 3, 8, 1, 4, 7, 9 into the
  empty tree, deleting 3 puts 4 in the place of 3 and makes 1 the left child of 4. The
  tree of the source is a different one. The key 4 is not smaller than 3, so
  \<open>bst_insert\<close> has put it into the right subtree of 3; the left subtree of 3 holds
  the key 1 only.
\<close>

theorem bst_delete_two_children_counterexample:
  "bst_delete (foldl bst_insert TNone [5, 3, 8, 1, 4, 7, 9]) 3 \<noteq>
     TreeNode 5
       (TreeNode 4 (TreeNode 1 TNone TNone) TNone)
       (TreeNode 8 (TreeNode 7 TNone TNone) (TreeNode 9 TNone TNone))"
  by simp

text \<open>
  Claim C1, amended: before the deletion the node 3 has the left child 1 and the right
  child 4; the maximum of its left subtree is 1; deleting 3 puts 1 in the place of 3,
  empties the left slot and keeps 4 as the right child.
\<close>

theorem bst_delete_two_children:
  "foldl bst_insert TNone [5, 3, 8, 1, 4, 7, 9] =
     TreeNode 5
       (TreeNode 3 (TreeNode 1 TNone TNone) (TreeNode 4 TNone TNone))
       (TreeNode 8 (TreeNode 7 TNone TNone) (TreeNode 9 TNone TNone))
   \<and> bst_find_max (TreeNode 1 TNone TNone) = Some 1
   \<and> bst_delete (foldl bst_insert TNone [5, 3, 8, 1, 4, 7, 9]) 3 =
     TreeNode 5
       (TreeNode 1 TNone (TreeNode 4 TNone TNone))
       (TreeNode 8 (TreeNode 7 TNone TNone) (TreeNode 9 TNone TNone))"
  by simp

subsection \<open>The ordering invariant under requests\<close>

text \<open>
  Claim C2, as the specification states it: after every sequence of inserts and deletes
  the left subtree of every node holds strictly smaller keys. With a repeated key the
  deletion of a node with two children breaks this: after inserting 5, 3, 3, 8 the
  left subtree of 5 is 3 with a right child 3; deleting 5 moves the maximum 3 of that
  subtree to the root and leaves the other 3 on its left.
\<close>

theorem bst_inv_counterexample:
  "\<not> bst_inv (bst_run [Insert 5, Insert 3, Insert 3, Insert 8, Delete 5])"
  by (simp add: bst_run_def)

text \<open>
  Claim C2, amended: after every sequence of inserts and deletes, at every node the keys
  of the left subtree are less than or equal to the node's key and the keys of the
  right subtree are greater than or equal to it. Ties are routed right on insert:
  every insert keeps the ordering with the left side strict, and a delete keeps it
  exactly when it does not put a key into a two-child node that occurs more than once
  in the left subtree of that node. Hence the left side is strict after every
  sequence without such a delete, whatever keys its inserts repeat.
\<close>

theorem bst_ordering_after_requests:
  "bst_weak (bst_run ops) \<and>
   (unique_promotions ops TNone \<longrightarrow> bst_inv (bst_run ops)) \<and>
   (bst_inv t \<longrightarrow> bst_inv (bst_insert t v)) \<and>
   (bst_inv t \<longrightarrow> (bst_inv (bst_delete t v) \<longleftrightarrow> unique_promotion t v))"
proof (intro conjI impI)
  show "bst_weak (bst_run ops)"
    unfolding bst_run_def by (rule bst_weak_foldl) simp
  show "bst_inv (bst_run ops)" if "unique_promotions ops TNone"
    unfolding bst_run_def using that by (intro bst_inv_foldl) simp_all
  show "bst_inv (bst_insert t v)" if "bst_inv t"
    using that by (rule bst_inv_insert)
  show "bst_inv (bst_delete t v) \<longleftrightarrow> unique_promotion t v" if "bst_inv t"
    using that by (rule bst_inv_delete_iff)
qed

theorem bst_ordering_after_requests_witness:
  "unique_promotions [Insert 5, Insert 3, Insert 5, Insert 1, Delete 5] TNone
   \<and> bst_inv (TreeNode 5 (TreeNode 3 TNone TNone) TNone)
   \<and> unique_promotion (TreeNode 5 (TreeNode 3 TNone TNone) TNone) 5
   \<and> bst_weak (bst_run [Insert 5, Insert 3, Insert 5, Insert 1, Delete 5])
   \<and> bst_inv (bst_run [Insert 5, Insert 3, Insert 5, Insert 1, Delete 5])
   \<and> bst_inv (bst_insert (TreeNode 5 (TreeNode 3 TNone TNone) TNone) 5)
   \<and> bst_inv (bst_delete (TreeNode 5 (TreeNode 3 TNone TNone) TNone) 5)"
proof -
  have h1: "unique_promotions [Insert 5, Insert 3, Insert 5, Insert 1, Delete 5] TNone"
    by simp
  have h2: "bst_inv (TreeNode 5 (TreeNode 3 TNone TNone) TNone)" by simp
  have h3: "unique_promotion (TreeNode 5 (TreeNode 3 TNone TNone) TNone) 5" by simp
  from bst_ordering_after_requests
         [of "[Insert 5, Insert 3, Insert 5, Insert 1, Delete 5]"
             "TreeNode 5 (TreeNode 3 TNone TNone) TNone" 5] h1 h2 h3
  show ?thesis by blast
qed

subsection \<open>Search after inserts and deletes\<close>

text \<open>
  Claim C3: when pairwise distinct integers \<open>xs\<close> are inserted into the empty tree and
  then the keys \<open>ds\<close> are deleted, in any order and whether present or not,
  \<open>bst_search\<close> finds \<open>k\<close> exactly when \<open>k\<close> was inserted and not deleted.
\<close>

theorem bst_search_inserted_not_deleted:
  assumes "distinct xs"
  shows "bst_search (foldl bst_delete (foldl bst_insert TNone xs) ds) k
           \<longleftrightarrow> k \<in> set xs \<and> k \<notin> set ds"
proof -
  have "bst_strict (TNone :: int TreeNode)" by simp
  from bst_strict_foldl_insert [OF this assms]
  have s: "bst_strict (foldl bst_insert TNone xs)"
    and k: "set (keys (foldl bst_insert TNone xs)) = set xs" by simp_all
  from bst_strict_foldl_delete [OF s, of ds] k
  have s': "bst_strict (foldl bst_delete (foldl bst_insert TNone xs) ds)"
    and k': "set (keys (foldl bst_delete (foldl bst_insert TNone xs) ds)) = set xs - set ds"
    by simp_all
  from bst_search_weak [OF bst_strict_weak [OF s'], of k] k' show ?thesis by simp
qed

theorem bst_search_inserted_not_deleted_witness:
  "distinct [5, 3, 8, 1 :: int]
   \<and> bst_search (foldl bst_delete (foldl bst_insert TNone [5, 3, 8, 1]) [3, 7]) 8
   \<and> \<not> bst_search (foldl bst_delete (foldl bst_insert TNone [5, 3, 8, 1]) [3, 7]) 3"
proof -
  have h: "distinct [5, 3, 8, 1 :: int]" by simp
  from bst_search_inserted_not_deleted [OF h, of "[3, 7]" 8]
       bst_search_inserted_not_deleted [OF h, of "[3, 7]" 3] h
  show ?thesis by simp
qed

section \<open>Properties of the linked stack\<close>

lemma to_list_loop_app: "to_list_loop c items = items @ to_list_loop c []"
proof (induction c arbitrary: items)
  case NNone
  then show ?case by simp
next
  case (Node d l r)
  from Node.IH(1) [of "items @ [d]"] Node.IH(1) [of "[d]"] show ?case by simp
qed

lemma push_foldl:
  "stack_length (foldl push s xs) = stack_length s + int (length xs) \<and>
   to_list (foldl push s xs) = rev xs @ to_list s"
proof (induction xs arbitrary: s)
  case Nil
  then show ?case by simp
next
  case (Cons x xs)
  have "to_list (push s x) = x # to_list s"
    using to_list_loop_app [of "stack_head s" "[x]"] by (simp add: to_list_def push_def)
  with Cons [of "push s x"] show ?case by (simp add: push_def)
qed

text \<open>
  Claim C9: after pushing the values \<open>xs\<close> onto a new stack, in this order, \<open>to_list\<close>
  is the reverse of \<open>xs\<close>, the value pushed last coming first; \<open>length\<close> counts the
  pushes.
\<close>

theorem to_list_rev_pushes:
  "to_list (foldl push Stack_init xs) = rev xs \<and>
   stack_length (foldl push Stack_init xs) = int (length xs)"
  using push_foldl [of Stack_init xs] by (simp add: Stack_init_def to_list_def)

section \<open>Properties of the linked queue\<close>

lemma cells_frame:
  "n \<notin> fst ` set cs \<Longrightarrow> cells (h(n \<mapsto> obj)) p cs = cells h p cs"
  by (induction cs arbitrary: p) (auto split: option.splits)

lemma cells_snoc:
  "cells h p cs \<Longrightarrow> cs \<noteq> [] \<Longrightarrow> distinct (map fst cs) \<Longrightarrow> n \<notin> fst ` set cs \<Longrightarrow>
   h (fst (last cs)) = Some obj \<Longrightarrow>
   cells (h(n \<mapsto> \<lparr>node = v, left = None, right = None\<rparr>, fst (last cs) \<mapsto> obj\<lparr>right := Some n\<rparr>))
     p (cs @ [(n, v)])"
proof (induction cs arbitrary: p)
  case Nil
  then show ?case by simp
next
  case (Cons c cs)
  obtain a w where c: "c = (a, w)" by (cases c)
  show ?case
  proof (cases "cs = []")
    case True
    with Cons.prems c show ?thesis by (auto split: option.splits)
  next
    case False
    with Cons.prems c obtain o1 where o1: "h a = Some o1" "node o1 = w" "cells h (right o1) cs"
      by (auto split: option.splits)
    from Cons.prems c False have ne: "a \<noteq> fst (last cs)" "a \<noteq> n"
      by (auto simp: image_iff)
    from Cons.prems have d: "distinct (map fst cs)" and f: "n \<notin> fst ` set cs" by auto
    from Cons.prems False have l: "h (fst (last cs)) = Some obj" by simp
    from Cons.IH [OF o1(3) False d f l] o1 ne c False Cons.prems(1) show ?thesis by simp
  qed
qed

lemma cells_last_right:
  "cells h p cs \<Longrightarrow> cs \<noteq> [] \<Longrightarrow> \<exists>obj. h (fst (last cs)) = Some obj"
  by (induction cs arbitrary: p) (auto split: option.splits)

lemma enqueue_inv:
  assumes "queue_inv q cs"
  shows "\<exists>q'. enqueue q x = Inr q' \<and> queue_inv q' (cs @ [(next_addr q, x)])"
proof (cases "cs = []")
  case True
  with assms show ?thesis
    by (auto simp: queue_inv_def enqueue_def Let_def)
next
  case False
  obtain c cs' where cs: "cs = c # cs'" using False by (cases cs) auto
  from assms have ch: "cells (heap q) (head q) cs" and d: "distinct (map fst cs)"
    and al: "\<forall>c\<in>set cs. fst c < next_addr q" and len: "qlength q = int (length cs)"
    and tl: "tail q = Some (fst (last cs))"
    using False by (auto simp: queue_inv_def list_all_iff)
  from ch cs obtain a where hd: "head q = Some a" by (cases c) auto
  from cells_last_right [OF ch False] obtain obj where obj: "heap q (fst (last cs)) = Some obj"
    by blast
  have fresh: "next_addr q \<notin> fst ` set cs" using al by auto
  have lastne: "fst (last cs) \<noteq> next_addr q" using al False
    by (metis last_in_set less_irrefl)
  let ?q' = "q\<lparr>heap := (heap q)(next_addr q \<mapsto> \<lparr>node = x, left = None, right = None\<rparr>,
                          fst (last cs) \<mapsto> obj\<lparr>right := Some (next_addr q)\<rparr>),
               next_addr := next_addr q + 1, tail := Some (next_addr q),
               qlength := qlength q + 1\<rparr>"
  have e: "enqueue q x = Inr ?q'"
    using hd tl obj lastne by (simp add: enqueue_def Let_def)
  have "cells (heap ?q') (head ?q') (cs @ [(next_addr q, x)])"
    using cells_snoc [OF ch False d fresh obj, of x] by simp
  moreover have "distinct (map fst (cs @ [(next_addr q, x)]))" using d fresh by simp
  moreover have "list_all (\<lambda>c. fst c < next_addr ?q') (cs @ [(next_addr q, x)])"
    using al by (auto simp: list_all_iff)
  ultimately have "queue_inv ?q' (cs @ [(next_addr q, x)])"
    using len by (simp add: queue_inv_def)
  with e show ?thesis by blast
qed

lemma dequeue_inv_Nil: "queue_inv q [] \<Longrightarrow> dequeue q = Inr (None, q)"
  by (simp add: queue_inv_def dequeue_def)

lemma dequeue_inv_Cons:
  assumes "queue_inv q ((a, v) # cs)"
  shows "\<exists>q'. dequeue q = Inr (Some v, q') \<and> queue_inv q' cs"
proof -
  from assms obtain obj where hd: "head q = Some a" and obj: "heap q a = Some obj"
    and v: "node obj = v" and ch: "cells (heap q) (right obj) cs"
    by (auto simp: queue_inv_def split: option.splits)
  from assms have len: "qlength q = int (length cs) + 1" by (simp add: queue_inv_def)
  let ?q' = "q\<lparr>head := right obj, qlength := qlength q - 1\<rparr>"
  have e: "dequeue q = Inr (Some v, ?q')"
    using hd obj v len by (simp add: dequeue_def)
  have "queue_inv ?q' cs"
    using assms ch len by (auto simp: queue_inv_def)
  with e show ?thesis by blast
qed

lemma queue_run_fifo:
  "queue_inv q cs \<Longrightarrow>
   \<exists>q' cs'. queue_run ops q = Inr (fifo ops (map snd cs), q') \<and> queue_inv q' cs'"
proof (induction ops arbitrary: q cs)
  case Nil
  then show ?case by auto
next
  case (Cons op ops)
  show ?case
  proof (cases op)
    case (Enqueue x)
    from enqueue_inv [OF Cons.prems, of x] obtain q1
      where e: "enqueue q x = Inr q1" and i: "queue_inv q1 (cs @ [(next_addr q, x)])" by blast
    from Cons.IH [OF i] e Enqueue show ?thesis by auto
  next
    case Dequeue
    show ?thesis
    proof (cases cs)
      case Nil
      with Cons.prems have e: "dequeue q = Inr (None, q)" by (simp add: dequeue_inv_Nil)
      from Cons.IH [OF Cons.prems] e Dequeue Nil show ?thesis by auto
    next
      case (Cons c cs1)
      obtain a v where c: "c = (a, v)" by (cases c)
      from dequeue_inv_Cons [of q a v cs1] Cons.prems Cons c obtain q1
        where e: "dequeue q = Inr (Some v, q1)" and i: "queue_inv q1 cs1" by blast
      from Cons.IH [OF i] e Dequeue Cons c show ?thesis by auto
    qed
  qed
qed

lemma queue_inv_init: "queue_inv QueueLinked_init []"
  by (simp add: queue_inv_def QueueLinked_init_def)

text \<open>
  Claim C5: every sequence of \<open>enqueue\<close> and \<open>dequeue\<close> calls on a new queue runs
  without an exception, and its dequeues return what the first-in-first-out queue
  \<open>fifo\<close> returns: the values in the order of their enqueues, and the sentinel
  \<open>None\<close> whenever the queue holds no element.
\<close>

theorem dequeue_fifo_order:
  "\<exists>q. queue_run ops QueueLinked_init = Inr (fifo ops [], q)"
  using queue_run_fifo [OF queue_inv_init, of ops] by auto

text \<open>
  Claim C4, as the specification states it: when \<open>tail\<close> is not \<open>None\<close>, \<open>head\<close> is not
  \<open>None\<close> either. \<open>dequeue\<close> moves \<open>head\<close> only and never writes \<open>tail\<close>: after one
  enqueue and one dequeue \<open>head\<close> is \<open>None\<close> and \<open>tail\<close> still refers to the node at
  address 0.
\<close>

theorem tail_without_head_counterexample:
  "map_option head (final_queue [Enqueue (1::int), Dequeue]) = Some None \<and>
   map_option tail (final_queue [Enqueue (1::int), Dequeue]) = Some (Some 0)"
  by (simp add: final_queue_def QueueLinked_init_def enqueue_def dequeue_def Let_def)

text \<open>
  Claim C4, amended: after every sequence of \<open>enqueue\<close> and \<open>dequeue\<close> calls on a new
  queue, when \<open>head\<close> is not \<open>None\<close> then \<open>tail\<close> is not \<open>None\<close> and refers to the last
  node of the chain that starts at \<open>head\<close>.
\<close>

theorem tail_last_when_head:
  "\<exists>q cs. final_queue ops = Some q \<and> cells (heap q) (head q) cs \<and>
     (head q \<noteq> None \<longrightarrow> tail q = Some (fst (last cs)))"
proof -
  from queue_run_fifo [OF queue_inv_init, of ops] obtain q cs
    where r: "queue_run ops QueueLinked_init = Inr (fifo ops [], q)" and i: "queue_inv q cs"
    by auto
  from r have "final_queue ops = Some q" by (simp add: final_queue_def)
  moreover from i have "cells (heap q) (head q) cs" by (simp add: queue_inv_def)
  moreover from i have "head q \<noteq> None \<longrightarrow> tail q = Some (fst (last cs))"
    by (cases cs) (auto simp: queue_inv_def)
  ultimately show ?thesis by blast
qed

theorem tail_last_when_head_witness:
  "map_option head (final_queue [Enqueue (1::int), Enqueue 2, Dequeue]) = Some (Some 1) \<and>
   map_option tail (final_queue [Enqueue (1::int), Enqueue 2, Dequeue]) = Some (Some 1)"
  using tail_last_when_head [of "[Enqueue (1::int), Enqueue 2, Dequeue]"]
  by (simp add: final_queue_def QueueLinked_init_def enqueue_def dequeue_def Let_def)

section \<open>Properties of the depth-first search\<close>

lemma walk_result:
  "walk U w k t st =
     (if node_height t < k
      then Inr \<lparr>results = results st @ filter (\<lambda>v. substring_test U w v = Inr True) (preorder t),
                visited = visited st @ preorder t\<rparr>
      else Inl RecursionError)"
proof (induction t arbitrary: k st)
  case NNone
  then show ?case by (cases k) simp_all
next
  case (Node v l r)
  show ?case
  proof (cases k)
    case 0
    then show ?thesis by simp
  next
    case (Suc j)
    show ?thesis
    proof (cases "node_height l < j")
      case True
      then show ?thesis
        unfolding Suc
        by (cases "substring_test U w v") (auto simp: Node.IH Let_def)
    next
      case False
      then show ?thesis
        unfolding Suc by (simp add: Node.IH Let_def)
    qed
  qed
qed

lemma dfs_search_result:
  "dfs_search U frames root word =
     (if word = [] then Inr \<lparr>results = [], visited = []\<rparr>
      else if node_height root < frames
      then Inr \<lparr>results = filter (\<lambda>v. substring_test U (lower U word) v = Inr True) (preorder root),
                visited = preorder root\<rparr>
      else Inl RecursionError)"
  by (simp add: dfs_search_def walk_result)








lemma node_height_map_Node: "node_height (map_Node f t) = node_height t"
  by (induction t) simp_all


lemma node_height_right_chain: "node_height (right_chain n v) = n"
  by (induction n) simp_all

lemma BST_insert_right_chain: "BST_insert (right_chain n v) v = right_chain (Suc n) v"
  by (induction n) simp_all

lemma foldl_BST_insert_replicate:
  "foldl BST_insert (right_chain m v) (replicate n v) = right_chain (m + n) v"
proof (induction n arbitrary: m)
  case 0
  then show ?case by simp
next
  case (Suc n)
  from Suc [of "Suc m"] show ?case by (simp add: BST_insert_right_chain)
qed

lemma perform_bst_search_equal_titles:
  assumes "word \<noteq> []" and "frames \<le> n"
  shows "perform_bst_search U frames (replicate n v) word = Inl RecursionError"
proof -
  have "foldl BST_insert (right_chain 0 v) (replicate n v) = right_chain (0 + n) v"
    by (rule foldl_BST_insert_replicate)
  then have "foldl BST_insert NNone (replicate n v) = right_chain n v" by simp
  with assms show ?thesis
    by (simp add: perform_bst_search_def dfs_search_result node_height_map_Node
          node_height_right_chain)
qed




text \<open>
  Claim C10, as stated: for every tree and every query that is not empty \<open>dfs_search\<close>
  never raises. \<open>BST.insert\<close> links equal titles into a chain through \<open>right\<close> with a
  loop, to any depth, and \<open>walk\<close> descends it by recursion outside its \<open>try\<close> block:
  with room for 1000 nested calls, the search over 1000 equal titles raises
  \<open>RecursionError\<close>.
\<close>

theorem dfs_search_depth_counterexample:
  "perform_bst_search ucd_excerpt 1000 (replicate 1000 (ustr ''a'')) (ustr ''a'') =
     Inl RecursionError"
proof (rule perform_bst_search_equal_titles)
  show "ustr ''a'' \<noteq> []" by (simp add: ustr_def)
  show "(1000::nat) \<le> 1000" by simp
qed

text \<open>
  Claim C10, amended: for every tree, whatever its nodes hold, and every query that is
  not empty, when the height of the tree is less than the number of nested calls
  that the interpreter still allows, \<open>dfs_search\<close> returns a result and no exception
  leaves it. The result lists, in traversal order, the values on which the test
  \<^verbatim>\<open>w in node.node.lower()\<close> gives true; a value on which the test raises is not
  listed; and \<open>walk\<close> runs on every node of the tree, also on those below a node whose
  test raised. On a higher tree \<open>dfs_search\<close> raises \<open>RecursionError\<close>.
\<close>

theorem dfs_search_total:
  assumes "word \<noteq> []"
  shows "dfs_search U frames root word =
     (if node_height root < frames
      then Inr \<lparr>results = filter (\<lambda>v. substring_test U (lower U word) v = Inr True) (preorder root),
                visited = preorder root\<rparr>
      else Inl RecursionError)"
  using assms by (simp add: dfs_search_result)

theorem dfs_search_total_witness:
  "ustr ''tree'' \<noteq> [] \<and>
   dfs_search ucd_excerpt 4
     (Node (PInt 3)
        (Node (PStr (ustr ''Tree'')) NNone NNone)
        (Node (PBytes ''tree'') NNone
           (Node (PStr (ustr ''a tREe'')) (Node PNone NNone NNone) NNone)))
     (ustr ''tree'') =
     Inl RecursionError \<and>
   dfs_search ucd_excerpt 5
     (Node (PInt 3)
        (Node (PStr (ustr ''Tree'')) NNone NNone)
        (Node (PBytes ''tree'') NNone
           (Node (PStr (ustr ''a tREe'')) (Node PNone NNone NNone) NNone)))
     (ustr ''tree'') =
     Inr \<lparr>results = [PStr (ustr ''Tree''), PStr (ustr ''a tREe'')],
          visited = [PInt 3, PStr (ustr ''Tree''), PBytes ''tree'', PStr (ustr ''a tREe''),
                     PNone]\<rparr>"
proof -
  let ?t = "Node (PInt 3)
        (Node (PStr (ustr ''Tree'')) NNone NNone)
        (Node (PBytes ''tree'') NNone
           (Node (PStr (ustr ''a tREe'')) (Node PNone NNone NNone) NNone))"
  have h: "ustr ''tree'' \<noteq> []" by code_simp
  have f: "filter (\<lambda>v. substring_test ucd_excerpt (lower ucd_excerpt (ustr ''tree'')) v = Inr True)
             [PInt 3, PStr (ustr ''Tree''), PBytes ''tree'', PStr (ustr ''a tREe''), PNone] =
           [PStr (ustr ''Tree''), PStr (ustr ''a tREe'')]"
    by code_simp
  from dfs_search_total [OF h, of ucd_excerpt 4 ?t]
       dfs_search_total [OF h, of ucd_excerpt 5 ?t] f h
  show ?thesis by simp
qed

section \<open>Properties of the level-order insertion\<close>

lemma bfs_slot_full_prefix:
  "list_all full xs \<Longrightarrow> bfs_slot (xs @ ys) = bfs_slot (ys @ concat (map children xs))"
proof (induction xs arbitrary: ys)
  case Nil
  then show ?case by simp
next
  case (Cons x xs)
  obtain p t where x: "x = (p, t)" by (cases x)
  from Cons.prems x obtain v l r where t: "t = TreeNode v l r" "l \<noteq> TNone" "r \<noteq> TNone"
    by (cases t) auto
  from Cons.prems have fx: "list_all full xs" by simp
  have "bfs_slot ((x # xs) @ ys) = bfs_slot (xs @ (ys @ [(p @ [LeftSlot], l), (p @ [RightSlot], r)]))"
    using x t by simp
  also have "\<dots> = bfs_slot ((ys @ [(p @ [LeftSlot], l), (p @ [RightSlot], r)]) @ concat (map children xs))"
    by (rule Cons.IH [OF fx])
  also have "\<dots> = bfs_slot (ys @ concat (map children (x # xs)))"
    using x t by simp
  finally show ?case .
qed

lemma bfs_slot_first_gap:
  assumes "list_all full xs" and "\<not> full y" and "snd y \<noteq> TNone"
  shows "bfs_slot (xs @ y # ys) = Inr (first (free_slots y))"
proof -
  obtain p t where y: "y = (p, t)" by (cases y)
  from assms(3) y obtain v l r where t: "t = TreeNode v l r" by (cases t) auto
  have "bfs_slot (xs @ y # ys) = bfs_slot ((y # ys) @ concat (map children xs))"
    by (rule bfs_slot_full_prefix [OF assms(1)])
  also have "\<dots> = Inr (first (free_slots y))"
    using assms(2) y t by (auto simp: first_def)
  finally show ?thesis .
qed

lemma slots_full: "list_all full q \<Longrightarrow> slots q = []"
proof (induction q)
  case Nil
  then show ?case by (simp add: slots_def)
next
  case (Cons x q)
  obtain p t where x: "x = (p, t)" by (cases x)
  with Cons show ?case by (cases t) (auto simp: slots_def)
qed

lemma free_slots_gap: "\<not> full y \<Longrightarrow> snd y \<noteq> TNone \<Longrightarrow> free_slots y \<noteq> []"
proof -
  obtain p t where y: "y = (p, t)" by (cases y)
  assume "\<not> full y" "snd y \<noteq> TNone"
  with y show ?thesis by (cases t) auto
qed

lemma level_0: "\<forall>x\<in>set q. snd x \<noteq> TNone \<Longrightarrow> level 0 q = q"
proof (induction q)
  case Nil
  then show ?case by (simp add: level_def)
next
  case (Cons x q)
  obtain p t where x: "x = (p, t)" by (cases x)
  with Cons show ?case by (cases t) (auto simp: level_def)
qed

lemma level_Suc: "level (Suc n) q = level n (concat (map children q))"
proof (induction q)
  case Nil
  then show ?case by (simp add: level_def)
next
  case (Cons x q)
  obtain p t where x: "x = (p, t)" by (cases x)
  have "nodes_at (Suc n) p t = level n (children (p, t))"
  proof (cases t)
    case TNone
    then show ?thesis by (simp add: level_def)
  next
    case (TreeNode v l r)
    then show ?thesis by (simp add: level_def)
  qed
  with Cons x show ?case by (simp add: level_def)
qed

lemma children_height:
  assumes "tree_height (snd x) \<le> Suc N" and "c \<in> set (children x)"
  shows "snd c \<noteq> TNone \<and> tree_height (snd c) \<le> N"
proof -
  obtain p t where x: "x = (p, t)" by (cases x)
  show ?thesis
  proof (cases t)
    case TNone
    with assms x show ?thesis by simp
  next
    case (TreeNode v l r)
    with assms x show ?thesis by (auto split: if_splits)
  qed
qed

lemma first_append: "xs \<noteq> [] \<Longrightarrow> first (xs @ ys) = first xs"
  by (cases xs) (simp_all add: first_def)

lemma bfs_slot_levels:
  "\<forall>x\<in>set q. snd x \<noteq> TNone \<and> tree_height (snd x) \<le> N \<Longrightarrow>
   bfs_slot q = Inr (first (concat (map (\<lambda>n. slots (level n q)) [0..<N])))"
proof (induction N arbitrary: q)
  case 0
  have "q = []"
  proof (cases q)
    case Nil
    then show ?thesis .
  next
    case (Cons x q')
    with 0 have "snd x \<noteq> TNone" "tree_height (snd x) = 0" by auto
    then show ?thesis by (cases "snd x") auto
  qed
  then show ?case by (simp add: first_def)
next
  case (Suc N)
  have nn: "\<forall>x\<in>set q. snd x \<noteq> TNone" using Suc.prems by blast
  have up: "[0..<Suc N] = 0 # map Suc [0..<N]"
    by (simp add: upt_conv_Cons map_Suc_upt del: upt_Suc)
  have split: "concat (map (\<lambda>n. slots (level n q)) [0..<Suc N]) =
      slots q @ concat (map (\<lambda>n. slots (level n (concat (map children q)))) [0..<N])"
    unfolding up by (simp add: level_0 [OF nn] level_Suc comp_def)
  show ?case
  proof (cases "list_all full q")
    case True
    have "\<forall>c\<in>set (concat (map children q)). snd c \<noteq> TNone \<and> tree_height (snd c) \<le> N"
      using Suc.prems children_height by fastforce
    from Suc.IH [OF this]
    have "bfs_slot (concat (map children q)) =
      Inr (first (concat (map (\<lambda>n. slots (level n (concat (map children q)))) [0..<N])))" .
    moreover have "bfs_slot q = bfs_slot (concat (map children q))"
      using bfs_slot_full_prefix [OF True, of "[]"] by simp
    ultimately show ?thesis using split slots_full [OF True] by simp
  next
    case False
    then have "\<exists>x\<in>set q. \<not> full x" by (simp add: list_all_iff)
    from split_list_first_prop [OF this] obtain xs y ys
      where q: "q = xs @ y # ys" and ny: "\<not> full y" and fx: "\<forall>x\<in>set xs. \<not> \<not> full x" by blast
    from fx have fxs: "list_all full xs" by (simp add: list_all_iff)
    from nn q have yn: "snd y \<noteq> TNone" by simp
    have b: "bfs_slot q = Inr (first (free_slots y))"
      unfolding q by (rule bfs_slot_first_gap [OF fxs ny yn])
    have "slots q = free_slots y @ slots ys"
      using slots_full [OF fxs] by (simp add: q slots_def)
    then have "first (slots q @ concat (map (\<lambda>n. slots (level n (concat (map children q)))) [0..<N]))
        = first (free_slots y)"
      using free_slots_gap [OF ny yn] by (simp add: first_append)
    with b split show ?thesis by simp
  qed
qed

lemma slots_exist:
  "t \<noteq> TNone \<Longrightarrow> \<exists>n<tree_height t. slots (nodes_at n p t) \<noteq> []"
proof (induction t arbitrary: p)
  case TNone
  then show ?case by simp
next
  case (TreeNode v l r)
  show ?case
  proof (cases "l = TNone \<or> r = TNone")
    case True
    then have "slots (nodes_at 0 p (TreeNode v l r)) \<noteq> []" by (auto simp: slots_def)
    then show ?thesis by (intro exI [of _ 0]) simp
  next
    case False
    with TreeNode.IH(1) [of "p @ [LeftSlot]"] obtain n
      where n: "n < tree_height l" "slots (nodes_at n (p @ [LeftSlot]) l) \<noteq> []" by auto
    then have "Suc n < tree_height (TreeNode v l r)"
      and "slots (nodes_at (Suc n) p (TreeNode v l r)) \<noteq> []"
      by (auto simp: slots_def)
    then show ?thesis by blast
  qed
qed

lemma level_order_slots_nonempty: "t \<noteq> TNone \<Longrightarrow> level_order_slots t \<noteq> []"
proof -
  assume "t \<noteq> TNone"
  from slots_exist [OF this, of "[]"] obtain n
    where "n < tree_height t" "slots (nodes_at n [] t) \<noteq> []" by blast
  then show ?thesis
    unfolding level_order_slots_def slots_def by (auto simp del: upt_Suc)
qed

lemma bfs_slot_root:
  "t \<noteq> TNone \<Longrightarrow> bfs_slot [([], t)] = Inr (first (level_order_slots t))"
proof -
  assume t: "t \<noteq> TNone"
  have "\<forall>x\<in>set [([], t)]. snd x \<noteq> TNone \<and> tree_height (snd x) \<le> tree_height t"
    using t by simp
  from bfs_slot_levels [OF this] show ?thesis
    by (simp add: level_order_slots_def level_def slots_def)
qed

lemma nodes_at_child:
  "(p, u) \<in> set (nodes_at n p0 t) \<Longrightarrow>
     \<exists>rel. p = p0 @ rel \<and> child_at rel t = u \<and> u \<noteq> TNone"
proof (induction n p0 t rule: nodes_at.induct)
  case (1 n p)
  then show ?case by simp
next
  case (2 p v l r)
  then show ?case by auto
next
  case (3 n p0 v l r)
  from "3.prems" consider "(p, u) \<in> set (nodes_at n (p0 @ [LeftSlot]) l)"
    | "(p, u) \<in> set (nodes_at n (p0 @ [RightSlot]) r)" by auto
  then show ?case
  proof cases
    case 1
    from "3.IH"(1) [OF 1] obtain rel
      where "p = (p0 @ [LeftSlot]) @ rel" "child_at rel l = u" "u \<noteq> TNone" by blast
    then have "p = p0 @ (LeftSlot # rel) \<and> child_at (LeftSlot # rel) (TreeNode v l r) = u \<and> u \<noteq> TNone"
      by simp
    then show ?thesis by blast
  next
    case 2
    from "3.IH"(2) [OF 2] obtain rel
      where "p = (p0 @ [RightSlot]) @ rel" "child_at rel r = u" "u \<noteq> TNone" by blast
    then have "p = p0 @ (RightSlot # rel) \<and> child_at (RightSlot # rel) (TreeNode v l r) = u \<and> u \<noteq> TNone"
      by simp
    then show ?thesis by blast
  qed
qed

lemma child_at_snoc:
  "child_at p t = TreeNode v l r \<Longrightarrow>
     child_at (p @ [s]) t = (case s of LeftSlot \<Rightarrow> l | RightSlot \<Rightarrow> r)"
proof (induction p t rule: child_at.induct)
  case (1 p)
  then show ?case by simp
next
  case (2 v' l' r')
  then show ?case by (cases s; cases l; cases r) auto
next
  case (3 p v' l' r')
  then show ?case by simp
next
  case (4 p v' l' r')
  then show ?case by simp
qed

lemma free_slot_child:
  "(p, s) \<in> set (free_slots (p', u)) \<Longrightarrow> child_at p' t = u \<Longrightarrow>
     p = p' \<and> child_at p t \<noteq> TNone \<and> child_at (p @ [s]) t = TNone"
proof (cases u)
  case TNone
  assume "(p, s) \<in> set (free_slots (p', u))"
  with TNone show ?thesis by simp
next
  case (TreeNode v l r)
  assume a: "(p, s) \<in> set (free_slots (p', u))" and c: "child_at p' t = u"
  from a TreeNode have pp: "p = p'" and sl: "(s = LeftSlot \<and> l = TNone) \<or> (s = RightSlot \<and> r = TNone)"
    by (auto split: if_splits)
  from c TreeNode have "child_at p' t = TreeNode v l r" by simp
  from child_at_snoc [OF this, of s] sl have "child_at (p' @ [s]) t = TNone" by auto
  with pp c TreeNode show ?thesis by simp
qed

lemma level_order_slots_free:
  assumes "(p, s) \<in> set (level_order_slots t)"
  shows "child_at p t \<noteq> TNone \<and> child_at (p @ [s]) t = TNone"
proof -
  from assms obtain n p' u where m: "(p', u) \<in> set (nodes_at n [] t)"
    and f: "(p, s) \<in> set (free_slots (p', u))"
    by (auto simp: level_order_slots_def)
  from nodes_at_child [OF m] have "child_at p' t = u" by simp
  from free_slot_child [OF f this] show ?thesis by blast
qed

lemma child_at_set_slot:
  "child_at p t \<noteq> TNone \<Longrightarrow> child_at (p @ [s]) (set_slot p s n t) = n"
proof (induction p t rule: child_at.induct)
  case (1 p)
  then show ?case by simp
next
  case (2 v l r)
  then show ?case by (cases s; cases n) auto
next
  case (3 p v l r)
  then show ?case by simp
next
  case (4 p v l r)
  then show ?case by simp
qed

lemma tree_insert_route_first_slot:
  assumes "tree_root \<noteq> TNone" and "strip val \<noteq> []"
  shows "\<exists>p s rest root'.
           level_order_slots tree_root = (p, s) # rest \<and>
           child_at (p @ [s]) tree_root = TNone \<and>
           root' = set_slot p s (TreeNode (strip val) TNone TNone) tree_root \<and>
           child_at (p @ [s]) root' = TreeNode (strip val) TNone TNone \<and>
           tree_insert_route tree_root (Some (JStr val)) = Inr (OkSvg root', root')"
proof -
  from level_order_slots_nonempty [OF assms(1)] obtain p s rest
    where l: "level_order_slots tree_root = (p, s) # rest"
    by (cases "level_order_slots tree_root") auto
  then have "(p, s) \<in> set (level_order_slots tree_root)" by simp
  from level_order_slots_free [OF this]
  have c: "child_at p tree_root \<noteq> TNone" and f: "child_at (p @ [s]) tree_root = TNone"
    by simp_all
  from l bfs_slot_root [OF assms(1)] have "bfs_slot [([], tree_root)] = Inr (Some (p, s))"
    by (simp add: first_def)
  with assms(1)
  have "tree_insert tree_root (strip val) =
          Inr (set_slot p s (TreeNode (strip val) TNone TNone) tree_root)"
    by (simp add: tree_insert_def)
  with assms(2)
  have "tree_insert_route tree_root (Some (JStr val)) =
          Inr (OkSvg (set_slot p s (TreeNode (strip val) TNone TNone) tree_root),
               set_slot p s (TreeNode (strip val) TNone TNone) tree_root)"
    by (simp add: tree_insert_route_def py_strip_def get_value_def)
  with l f child_at_set_slot [OF c] show ?thesis by blast
qed


lemma tree_requests_ABCDE:
  "tree_requests TNone
     [Some (JStr ''A''), Some (JStr ''B''), Some (JStr ''C''), Some (JStr ''D''), Some (JStr ''E'')] =
     Inr (TreeNode ''A''
            (TreeNode ''B'' (TreeNode ''D'' TNone TNone) (TreeNode ''E'' TNone TNone))
            (TreeNode ''C'' TNone TNone))"
  by code_simp

text \<open>
  Claim C6: a request with a value that is not blank, on a tree that is not empty,
  links the new node into the first empty child slot in breadth-first order (level by
  level, left to right, the first slot of a node before its second): that slot is
  empty before the request and holds the new node after it. Inserting A, B, C, D, E
  into the empty tree gives the root A with the children B and C, and B with the
  children D and E.
\<close>

theorem tree_insert_level_order:
  "(tree_root \<noteq> TNone \<and> strip val \<noteq> [] \<longrightarrow>
      (\<exists>p s rest root'.
           level_order_slots tree_root = (p, s) # rest \<and>
           child_at (p @ [s]) tree_root = TNone \<and>
           root' = set_slot p s (TreeNode (strip val) TNone TNone) tree_root \<and>
           child_at (p @ [s]) root' = TreeNode (strip val) TNone TNone \<and>
           tree_insert_route tree_root (Some (JStr val)) = Inr (OkSvg root', root')))
   \<and> tree_requests TNone
         [Some (JStr ''A''), Some (JStr ''B''), Some (JStr ''C''), Some (JStr ''D''),
          Some (JStr ''E'')] =
       Inr (TreeNode ''A''
              (TreeNode ''B'' (TreeNode ''D'' TNone TNone) (TreeNode ''E'' TNone TNone))
              (TreeNode ''C'' TNone TNone))"
  using tree_insert_route_first_slot [of tree_root val] tree_requests_ABCDE by blast

theorem tree_insert_level_order_witness:
  "TreeNode ''A'' (TreeNode ''B'' TNone TNone) (TreeNode ''C'' TNone TNone) \<noteq> TNone \<and>
   strip '' D '' \<noteq> [] \<and>
   tree_insert_route
     (TreeNode ''A'' (TreeNode ''B'' TNone TNone) (TreeNode ''C'' TNone TNone))
     (Some (JStr '' D '')) =
     Inr (OkSvg (TreeNode ''A'' (TreeNode ''B'' (TreeNode ''D'' TNone TNone) TNone)
                   (TreeNode ''C'' TNone TNone)),
          TreeNode ''A'' (TreeNode ''B'' (TreeNode ''D'' TNone TNone) TNone)
            (TreeNode ''C'' TNone TNone))"
proof -
  let ?t = "TreeNode ''A'' (TreeNode ''B'' TNone TNone) (TreeNode ''C'' TNone TNone)"
  have h1: "?t \<noteq> TNone" by simp
  have s: "strip '' D '' = ''D''" by code_simp
  then have h2: "strip '' D '' \<noteq> []" by simp
  have l: "level_order_slots ?t =
      [([LeftSlot], LeftSlot), ([LeftSlot], RightSlot), ([RightSlot], LeftSlot), ([RightSlot], RightSlot)]"
    by code_simp
  from tree_insert_level_order [of ?t "'' D ''"] h1 h2 obtain p sl rest root'
    where a: "level_order_slots ?t = (p, sl) # rest"
      and b: "root' = set_slot p sl (TreeNode (strip '' D '') TNone TNone) ?t"
      and c: "tree_insert_route ?t (Some (JStr '' D '')) = Inr (OkSvg root', root')"
    by blast
  from a l have "p = [LeftSlot]" "sl = LeftSlot" by simp_all
  with b s have "root' = TreeNode ''A'' (TreeNode ''B'' (TreeNode ''D'' TNone TNone) TNone)
                   (TreeNode ''C'' TNone TNone)" by simp
  with c h1 h2 show ?thesis by simp
qed

section \<open>Properties of the request handlers\<close>

lemma bst_routes_reject_unparsed:
  assumes "py_int parse v = Inl e"
  shows "bst_search_route parse bst_root (Some v) = Inr (Fail, bst_root) \<and>
         bst_delete_route parse bst_root (Some v) = Inr (Fail, bst_root)"
  using assms by (simp add: bst_search_route_def bst_delete_route_def get_value_def)

lemma bst_insert_route_rejects_unparsed_string:
  assumes "py_int parse (JStr (strip s)) = Inl e"
  shows "bst_insert_route parse bst_root (Some (JStr s)) =
           Inr (if strip s = [] then Fail else FailError ''numeric only'', bst_root)"
  using assms by (simp add: bst_insert_route_def py_strip_def get_value_def)

text \<open>
  Claim C8 says that a value which does not parse as an integer makes each numeric
  handler return a failure result, leave the tree as it is and raise nothing. The
  lemmas above show this for the search and delete handlers on every value, and for
  the insert handler on every string, whose stripped text is what it converts. The
  insert handler calls \<open>.strip()\<close> on the value before its \<open>try\<close> block: for the JSON
  value \<open>null\<close>, which \<open>int\<close> rejects, the call raises \<open>AttributeError\<close> and the
  exception leaves the handler, while the search and delete handlers answer the same
  value with a failure result.
\<close>

theorem bst_insert_route_null:
  "py_int parse JNull = Inl TypeError \<and>
   bst_insert_route parse bst_root (Some JNull) = Inl AttributeError \<and>
   bst_search_route parse bst_root (Some JNull) = Inr (Fail, bst_root) \<and>
   bst_delete_route parse bst_root (Some JNull) = Inr (Fail, bst_root)"
  by (simp add: py_int_def bst_insert_route_def bst_search_route_def bst_delete_route_def
        py_strip_def get_value_def)

end
